theory Spec2Isabelle
  imports Main "HOL-Library.Word" "HOL-Library.Sublist" "HOL-Library.Log_Nat"
begin

unbundle bit_operations_syntax

chapter \<open>LRCGen: the LRC codec, the tag reader and the track pipeline\<close>

section \<open>JavaScript strings\<close>

text \<open>
  A JavaScript string is a sequence of UTF-16 code units. String literals of the source
  are written \<open>str ''...''\<close>.
\<close>

type_synonym jschar = "16 word"
type_synonym jsstring = "jschar list"

definition str :: "string \<Rightarrow> jsstring" where
  "str s = map of_char s"

text \<open>
  \<open>String.prototype.trim\<close> removes WhiteSpace and LineTerminator code units from both
  ends: TAB, LF, VT, FF, CR, SP, NBSP, U+1680, U+2000..U+200A, U+2028, U+2029, U+202F,
  U+205F, U+3000 and U+FEFF.
\<close>

definition isWhiteSpace :: "jschar \<Rightarrow> bool" where
  "isWhiteSpace c =
     (c = 9 \<or> c = 10 \<or> c = 11 \<or> c = 12 \<or> c = 13 \<or> c = 32 \<or> c = 160 \<or> c = 5760
      \<or> (8192 \<le> c \<and> c \<le> 8202) \<or> c = 8232 \<or> c = 8233 \<or> c = 8239 \<or> c = 8287
      \<or> c = 12288 \<or> c = 65279)"

definition trim :: "jsstring \<Rightarrow> jsstring" where
  "trim s = rev (dropWhile isWhiteSpace (rev (dropWhile isWhiteSpace s)))"

text \<open>The regular-expression atom \<open>.\<close> matches every code unit but a line terminator.\<close>

definition isLineTerminator :: "jschar \<Rightarrow> bool" where
  "isLineTerminator c = (c = 10 \<or> c = 13 \<or> c = 8232 \<or> c = 8233)"

text \<open>\<open>s.includes(sep)\<close>: \<open>sep\<close> occurs at some position of \<open>s\<close>.\<close>

fun includes_js :: "jsstring \<Rightarrow> jsstring \<Rightarrow> bool" where
  "includes_js sep [] = (sep = [])"
| "includes_js sep (c # cs) = (prefix sep (c # cs) \<or> includes_js sep cs)"

text \<open>
  \<open>s.split(sep)\<close> for a non-empty separator: the text is cut at the leftmost occurrence,
  then the search goes on behind it; \<open>cur\<close> is the piece collected so far.
\<close>

function split_from :: "jsstring \<Rightarrow> jsstring \<Rightarrow> jsstring \<Rightarrow> jsstring list" where
  "split_from sep cur [] = [cur]"
| "split_from sep cur (c # cs) =
     (if sep \<noteq> [] \<and> prefix sep (c # cs)
      then cur # split_from sep [] (drop (length sep) (c # cs))
      else split_from sep (cur @ [c]) cs)"
  by pat_completeness auto
termination
  by (relation "measure (\<lambda>(sep, cur, s). length s)") auto

definition split_js :: "jsstring \<Rightarrow> jsstring \<Rightarrow> jsstring list" where
  "split_js sep s = split_from sep [] s"

fun join_js :: "jsstring \<Rightarrow> jsstring list \<Rightarrow> jsstring" where
  "join_js sep [] = []"
| "join_js sep [p] = p"
| "join_js sep (p # q # ps) = p @ sep @ join_js sep (q # ps)"

section \<open>fileUtils.ts: metadata from the file name\<close>

text \<open>
  \<open>filename.replace(/\.[^/.]+$/, "")\<close>: the match is tried at every position from the
  left; it succeeds at a dot that is followed, up to the end of the string, by one or
  more code units that are neither \<open>/\<close> (47) nor \<open>.\<close> (46). The match runs to the end, so
  what is left is the text before that dot.
\<close>

definition extTail :: "jsstring \<Rightarrow> bool" where
  "extTail s = (s \<noteq> [] \<and> list_all (\<lambda>c. c \<noteq> 47 \<and> c \<noteq> 46) s)"

fun stripExt :: "jsstring \<Rightarrow> jsstring" where
  "stripExt [] = []"
| "stripExt (c # cs) = (if c = 46 \<and> extTail cs then [] else c # stripExt cs)"

record TrackMetadata =
  title :: "jsstring option"
  artist :: "jsstring option"

definition separator :: jsstring where
  "separator = str '' - ''"

text \<open>
  \<open>parseMetadataFromFilename\<close>. The test \<open>parts.length >= 2\<close> is the second pattern:
  \<open>parts[0]\<close> is \<open>p0\<close> and \<open>parts.slice(1)\<close> is \<open>p1 # ps\<close>. None of the string
  operations used can throw, so the function has no error result.
\<close>

definition parseMetadataFromFilename :: "jsstring \<Rightarrow> TrackMetadata" where
  "parseMetadataFromFilename filename =
     (let name = stripExt filename in
      if includes_js separator name
      then (case split_js separator name of
              p0 # p1 # ps \<Rightarrow>
                \<lparr>title = Some (trim (join_js separator (p1 # ps))), artist = Some (trim p0)\<rparr>
            | _ \<Rightarrow> \<lparr>title = Some name, artist = None\<rparr>)
      else \<lparr>title = Some name, artist = None\<rparr>)"

section \<open>fileUtils.ts: the ID3v2 tag reader\<close>

type_synonym byte = "8 word"

text \<open>
  A \<open>DataView\<close> read outside the buffer throws a \<open>RangeError\<close>, and so does a typed
  array of negative length. A thrown exception is the left summand of a result.
\<close>

datatype exn = RangeError

definition ebind :: "exn + 'a \<Rightarrow> ('a \<Rightarrow> exn + 'b) \<Rightarrow> exn + 'b" where
  "ebind r f = (case r of Inl e \<Rightarrow> Inl e | Inr x \<Rightarrow> f x)"

definition getUint8 :: "byte list \<Rightarrow> nat \<Rightarrow> exn + byte" where
  "getUint8 buf i = (if i < length buf then Inr (buf ! i) else Inl RangeError)"

text \<open>\<open>view.getUint32(i, false)\<close>: four bytes, big-endian, as a non-negative number.\<close>

definition getUint32 :: "byte list \<Rightarrow> nat \<Rightarrow> exn + nat" where
  "getUint32 buf i =
     (if i + 4 \<le> length buf
      then Inr (unat (buf ! i) * 2 ^ 24 + unat (buf ! (i + 1)) * 2 ^ 16
                + unat (buf ! (i + 2)) * 2 ^ 8 + unat (buf ! (i + 3)))
      else Inl RangeError)"

text \<open>
  \<open>((a & 0x7F) << 21) | ((b & 0x7F) << 14) | ((c & 0x7F) << 7) | (d & 0x7F)\<close> on 32-bit
  integers; the result is below \<open>2 ^ 28\<close>, so it is the same signed or unsigned.
\<close>

definition synchsafe :: "byte \<Rightarrow> byte \<Rightarrow> byte \<Rightarrow> byte \<Rightarrow> nat" where
  "synchsafe a b c d =
     unat ((push_bit 21 (ucast (a AND 0x7F)) OR push_bit 14 (ucast (b AND 0x7F))
            OR push_bit 7 (ucast (c AND 0x7F)) OR ucast (d AND 0x7F)) :: 32 word)"

definition synchsafeAt :: "byte list \<Rightarrow> nat \<Rightarrow> exn + nat" where
  "synchsafeAt buf i =
     ebind (getUint8 buf i) (\<lambda>a.
     ebind (getUint8 buf (i + 1)) (\<lambda>b.
     ebind (getUint8 buf (i + 2)) (\<lambda>c.
     ebind (getUint8 buf (i + 3)) (\<lambda>d. Inr (synchsafe a b c d)))))"

subsection \<open>\<open>TextDecoder\<close>\<close>

text \<open>
  The decoders of the Encoding Standard, in replacement mode (\<open>fatal\<close> is not set):
  a malformed sequence yields U+FFFD and decoding never throws. Both produce code points.
  The arguments of \<open>utf8\<close> are the decoder's code point, bytes seen, bytes needed, lower
  and upper boundary.
\<close>

fun utf8 :: "nat \<Rightarrow> nat \<Rightarrow> nat \<Rightarrow> nat \<Rightarrow> nat \<Rightarrow> byte list \<Rightarrow> nat list" where
  "utf8 cp seen needed lower upper [] = (if needed \<noteq> 0 then [0xFFFD] else [])"
| "utf8 cp seen needed lower upper (b # bs) =
     (let v = unat b in
      if needed = 0 then
        if v \<le> 0x7F then v # utf8 0 0 0 0x80 0xBF bs
        else if 0xC2 \<le> v \<and> v \<le> 0xDF then utf8 (v mod 32) 0 1 0x80 0xBF bs
        else if 0xE0 \<le> v \<and> v \<le> 0xEF
          then utf8 (v mod 16) 0 2 (if v = 0xE0 then 0xA0 else 0x80)
                 (if v = 0xED then 0x9F else 0xBF) bs
        else if 0xF0 \<le> v \<and> v \<le> 0xF4
          then utf8 (v mod 8) 0 3 (if v = 0xF0 then 0x90 else 0x80)
                 (if v = 0xF4 then 0x8F else 0xBF) bs
        else 0xFFFD # utf8 0 0 0 0x80 0xBF bs
      else if v < lower \<or> upper < v then 0xFFFD # utf8 0 0 0 0x80 0xBF (b # bs)
      else if seen + 1 \<noteq> needed then utf8 (cp * 64 + v mod 64) (seen + 1) needed 0x80 0xBF bs
      else (cp * 64 + v mod 64) # utf8 0 0 0 0x80 0xBF bs)"

text \<open>
  The UTF-16LE decoder (the label \<open>utf-16\<close>); its state is the leading byte and the
  leading surrogate. A leading surrogate that is not followed by a trailing one is an
  error, and the two bytes read after it are decoded again.
\<close>

function utf16le :: "byte option \<Rightarrow> nat option \<Rightarrow> byte list \<Rightarrow> nat list" where
  "utf16le lb ls [] = (if lb \<noteq> None \<or> ls \<noteq> None then [0xFFFD] else [])"
| "utf16le None ls (b # bs) = utf16le (Some b) ls bs"
| "utf16le (Some l) (Some s) (b # bs) =
     (let cu = unat b * 256 + unat l in
      if 0xDC00 \<le> cu \<and> cu \<le> 0xDFFF
      then (0x10000 + (s - 0xD800) * 1024 + (cu - 0xDC00)) # utf16le None None bs
      else 0xFFFD # utf16le None None (l # b # bs))"
| "utf16le (Some l) None (b # bs) =
     (let cu = unat b * 256 + unat l in
      if 0xD800 \<le> cu \<and> cu \<le> 0xDBFF then utf16le None (Some cu) bs
      else if 0xDC00 \<le> cu \<and> cu \<le> 0xDFFF then 0xFFFD # utf16le None None bs
      else cu # utf16le None None bs)"
  by pat_completeness auto
termination
  by (relation "measures
        [\<lambda>(lb, ls, bs). length bs + (case lb of None \<Rightarrow> 0 | Some _ \<Rightarrow> 1),
         \<lambda>(lb, ls, bs). (case ls of None \<Rightarrow> 0 | Some _ \<Rightarrow> 1),
         \<lambda>(lb, ls, bs). length bs]") auto

text \<open>A code point as UTF-16 code units: itself, or a surrogate pair.\<close>

definition codeUnits :: "nat \<Rightarrow> jsstring" where
  "codeUnits cp =
     (if cp < 0x10000 then [of_nat cp]
      else [of_nat (0xD800 + (cp - 0x10000) div 1024), of_nat (0xDC00 + (cp - 0x10000) mod 1024)])"

text \<open>
  \<open>new TextDecoder(label).decode(bytes)\<close>: \<open>ignoreBOM\<close> is not set, so a first code point
  U+FEFF is dropped.
\<close>

definition textDecode :: "bool \<Rightarrow> byte list \<Rightarrow> jsstring" where
  "textDecode utf16 bs =
     (let cps = (if utf16 then utf16le None None bs else utf8 0 0 0 0x80 0xBF bs)
      in concat (map codeUnits (case cps of c # r \<Rightarrow> if c = 0xFEFF then r else cps | [] \<Rightarrow> [])))"

subsection \<open>The frame walk\<close>

text \<open>
  One pass of the \<open>while\<close> loop of \<open>getTrackMetadata\<close> up to the decoded text: \<open>Done\<close> is
  a \<open>break\<close> (or, with an exception, a throw out of the loop); \<open>Next\<close> carries the frame
  identifier, the decoded text of a \<open>TIT2\<close> or \<open>TPE1\<close> frame, and the offset of the next
  frame. The decoders cannot throw, so the fallback of the inner \<open>catch\<close>
  (\<open>String.fromCharCode\<close>) is never taken.
\<close>

datatype frameStep = Done "exn option" | Next jsstring "jsstring option" nat

definition frameText :: "byte list \<Rightarrow> nat \<Rightarrow> nat \<Rightarrow> exn + jsstring" where
  "frameText buf offset frameSize =
     ebind (getUint8 buf offset) (\<lambda>encoding.
       if frameSize < 1 \<or> length buf < offset + frameSize then Inl RangeError
       else
         let textBytes = take (frameSize - 1) (drop (offset + 1) buf);
             text = textDecode (encoding = 1 \<or> encoding = 2) textBytes
         in Inr (trim (filter (\<lambda>c. c \<noteq> 0) text)))"

definition frameAt :: "byte list \<Rightarrow> byte \<Rightarrow> nat \<Rightarrow> nat \<Rightarrow> nat \<Rightarrow> frameStep" where
  "frameAt buf version tagSize limit offset =
     (if offset + 10 > limit then Done None
      else
        case ebind (getUint8 buf offset) (\<lambda>id1.
             ebind (getUint8 buf (offset + 1)) (\<lambda>id2.
             ebind (getUint8 buf (offset + 2)) (\<lambda>id3.
             ebind (getUint8 buf (offset + 3)) (\<lambda>id4. Inr (id1, [id1, id2, id3, id4]))))) of
          Inl e \<Rightarrow> Done (Some e)
        | Inr (id1, ids) \<Rightarrow>
            if id1 = 0 then Done None
            else
              let frameId = map ucast ids :: jsstring in
              case ebind (getUint32 buf (offset + 4)) (\<lambda>frameSize.
                     if version = 4 \<and> frameSize > tagSize then synchsafeAt buf (offset + 4)
                     else Inr frameSize) of
                Inl e \<Rightarrow> Done (Some e)
              | Inr frameSize \<Rightarrow>
                  if offset + 10 + frameSize > limit then Done None
                  else if frameId = str ''TIT2'' \<or> frameId = str ''TPE1''
                  then (case frameText buf (offset + 10) frameSize of
                          Inl e \<Rightarrow> Done (Some e)
                        | Inr text \<Rightarrow> Next frameId (Some text) (offset + 10 + frameSize))
                  else Next frameId None (offset + 10 + frameSize))"

record tags =
  id3Title :: "jsstring option"
  id3Artist :: "jsstring option"

text \<open>
  \<open>if (frameId === 'TIT2' && text.length > 0) id3Title = text;\<close> and the same for
  \<open>TPE1\<close> and \<open>id3Artist\<close>.
\<close>

definition assign :: "jsstring \<Rightarrow> jsstring option \<Rightarrow> tags \<Rightarrow> tags" where
  "assign frameId text st =
     (case text of
        None \<Rightarrow> st
      | Some t \<Rightarrow>
          let st1 = (if frameId = str ''TIT2'' \<and> length t > 0 then st\<lparr>id3Title := Some t\<rparr> else st)
          in if frameId = str ''TPE1'' \<and> length t > 0 then st1\<lparr>id3Artist := Some t\<rparr> else st1)"

lemma frameAt_advances: "frameAt buf version tagSize limit offset = Next fid txt off' \<Longrightarrow> offset < off'"
  by (auto simp: frameAt_def Let_def split: if_splits sum.splits)

text \<open>
  The loop \<open>while (offset < limit)\<close>: the result is the two variables when the loop is
  left, and the exception that left it, if one was thrown.
\<close>

function walk :: "byte list \<Rightarrow> byte \<Rightarrow> nat \<Rightarrow> nat \<Rightarrow> nat \<Rightarrow> tags \<Rightarrow> tags \<times> exn option" where
  "walk buf version tagSize limit offset st =
     (if offset < limit then
        case frameAt buf version tagSize limit offset of
          Done e \<Rightarrow> (st, e)
        | Next frameId text offset' \<Rightarrow> walk buf version tagSize limit offset' (assign frameId text st)
      else (st, None))"
  by pat_completeness auto
termination
  by (relation "measure (\<lambda>(buf, version, tagSize, limit, offset, st). limit - offset)")
     (auto dest: frameAt_advances)

declare walk.simps [simp del]

text \<open>The frames met by the same walk, in order, each with its decoded text.\<close>

function walkFrames :: "byte list \<Rightarrow> byte \<Rightarrow> nat \<Rightarrow> nat \<Rightarrow> nat \<Rightarrow> (jsstring \<times> jsstring option) list" where
  "walkFrames buf version tagSize limit offset =
     (if offset < limit then
        case frameAt buf version tagSize limit offset of
          Done e \<Rightarrow> []
        | Next frameId text offset' \<Rightarrow> (frameId, text) # walkFrames buf version tagSize limit offset'
      else [])"
  by pat_completeness auto
termination
  by (relation "measure (\<lambda>(buf, version, tagSize, limit, offset). limit - offset)")
     (auto dest: frameAt_advances)

declare walkFrames.simps [simp del]

text \<open>
  The \<open>try\<close> block: the \<open>ID3\<close> check, evaluated left to right with \<open>&&\<close>, the header
  fields, then the loop from offset 10.
\<close>

definition hasMagic :: "byte list \<Rightarrow> exn + bool" where
  "hasMagic buf =
     ebind (getUint8 buf 0) (\<lambda>b0. if b0 \<noteq> 0x49 then Inr False else
     ebind (getUint8 buf 1) (\<lambda>b1. if b1 \<noteq> 0x44 then Inr False else
     ebind (getUint8 buf 2) (\<lambda>b2. Inr (b2 = 0x33))))"

definition noTags :: tags where
  "noTags = \<lparr>id3Title = None, id3Artist = None\<rparr>"

definition readId3 :: "byte list \<Rightarrow> tags \<times> exn option" where
  "readId3 buf =
     (case hasMagic buf of
        Inl e \<Rightarrow> (noTags, Some e)
      | Inr False \<Rightarrow> (noTags, None)
      | Inr True \<Rightarrow>
          (case ebind (getUint8 buf 3) (\<lambda>version.
                ebind (synchsafeAt buf 6) (\<lambda>tagSize. Inr (version, tagSize))) of
             Inl e \<Rightarrow> (noTags, Some e)
           | Inr (version, tagSize) \<Rightarrow>
               walk buf version tagSize (min (tagSize + 10) (length buf)) 10 noTags))"

text \<open>
  The frames that the walk of \<open>readId3\<close> meets, and among them the non-empty decoded texts
  of the frames with a given identifier, in the order of the walk.
\<close>

definition id3Frames :: "byte list \<Rightarrow> (jsstring \<times> jsstring option) list" where
  "id3Frames buf =
     (case hasMagic buf of
        Inr True \<Rightarrow>
          (case ebind (getUint8 buf 3) (\<lambda>version.
                ebind (synchsafeAt buf 6) (\<lambda>tagSize. Inr (version, tagSize))) of
             Inl e \<Rightarrow> []
           | Inr (version, tagSize) \<Rightarrow>
               walkFrames buf version tagSize (min (tagSize + 10) (length buf)) 10)
      | _ \<Rightarrow> [])"

fun nonEmptyTexts :: "jsstring \<Rightarrow> (jsstring \<times> jsstring option) list \<Rightarrow> jsstring list" where
  "nonEmptyTexts frameId [] = []"
| "nonEmptyTexts frameId ((f, None) # frames) = nonEmptyTexts frameId frames"
| "nonEmptyTexts frameId ((f, Some t) # frames) =
     (if f = frameId \<and> t \<noteq> [] then t # nonEmptyTexts frameId frames
      else nonEmptyTexts frameId frames)"

subsection \<open>\<open>getTrackMetadata\<close>\<close>

record File =
  file_name :: jsstring
  file_bytes :: "byte list"

text \<open>
  The priority merge after the \<open>try\<close> block. \<open>id3Title && id3Title.trim().length > 0\<close>
  needs a defined, non-empty string whose trimmed form is non-empty;
  \<open>filenameMetadata.artist || "Unknown"\<close> takes \<open>"Unknown"\<close> for an absent or empty artist.
\<close>

definition nonBlank :: "jsstring option \<Rightarrow> bool" where
  "nonBlank x = (case x of Some t \<Rightarrow> t \<noteq> [] \<and> length (trim t) > 0 | None \<Rightarrow> False)"

definition artistOrUnknown :: "jsstring option \<Rightarrow> jsstring" where
  "artistOrUnknown a =
     (case a of Some f \<Rightarrow> if f \<noteq> [] then f else str ''Unknown'' | None \<Rightarrow> str ''Unknown'')"

definition mergeMetadata :: "tags \<Rightarrow> TrackMetadata \<Rightarrow> TrackMetadata" where
  "mergeMetadata st filenameMetadata =
     (let finalTitle = (if nonBlank (id3Title st) then id3Title st else title filenameMetadata);
          finalArtist = (if nonBlank (id3Artist st) then id3Artist st
                         else Some (artistOrUnknown (artist filenameMetadata)))
      in \<lparr>title = finalTitle, artist = finalArtist\<rparr>)"

text \<open>
  \<open>getTrackMetadata\<close> reads the first 128 KiB. The exception of the \<open>try\<close> block is caught
  and logged, the variables keep what was assigned before it. An \<open>Inl\<close> result would be
  an exception that reaches the caller.
\<close>

definition getTrackMetadata :: "File \<Rightarrow> exn + TrackMetadata" where
  "getTrackMetadata file =
     (case readId3 (take (128 * 1024) (file_bytes file)) of
        (st, thrown) \<Rightarrow> Inr (mergeMetadata st (parseMetadataFromFilename (file_name file))))"

text \<open>A tag with two \<open>TIT2\<close> frames, \<open>"A"\<close> then \<open>"B"\<close>, both UTF-8 (ID3v2.3, tag size 24).\<close>

definition twoTitleFrames :: "byte list" where
  "twoTitleFrames =
     [0x49, 0x44, 0x33, 3, 0, 0, 0, 0, 0, 24,
      0x54, 0x49, 0x54, 0x32, 0, 0, 0, 2, 0, 0, 3, 0x41,
      0x54, 0x49, 0x54, 0x32, 0, 0, 0, 2, 0, 0, 3, 0x42]"

section \<open>JavaScript numbers\<close>

text \<open>
  A finite Number is the rational value of an IEEE-754 double. An arithmetic operation
  computes the exact result and rounds it to the nearest double, ties to even: \<open>fl\<close>.
  \<open>expo x\<close> is the binary exponent of \<open>x\<close>, \<open>2 ^ expo x \<le> \<bar>x\<bar> < 2 ^ (expo x + 1)\<close>; a double
  has 53 significant bits, so the doubles around \<open>x\<close> are \<open>ulp x\<close> apart, and below
  \<open>2 ^ - 1022\<close> the spacing stays \<open>2 ^ - 1074\<close>; \<open>rne\<close> rounds to the nearest integer, ties to
  even. \<open>NaN\<close> and the infinities occur only as audio samples and are modelled with them;
  overflow past \<open>2 ^ 1024\<close> is not modelled, no value computed below comes near.
\<close>

definition expo :: "rat \<Rightarrow> int" where
  "expo x = (let (p, q) = quotient_of \<bar>x\<bar>; a = bitlen p - bitlen q
             in if 2 powi a \<le> \<bar>x\<bar> then a else a - 1)"

definition rne :: "rat \<Rightarrow> int" where
  "rne x = (let f = \<lfloor>x\<rfloor>; d = x - of_int f
            in if d < 1 / 2 then f else if 1 / 2 < d then f + 1
               else if even f then f else f + 1)"

definition ulp :: "rat \<Rightarrow> rat" where
  "ulp x = 2 powi (max (expo x) (- 1022) - 52)"

definition fl :: "rat \<Rightarrow> rat" where
  "fl x = (if x = 0 then 0 else of_int (rne (x / ulp x)) * ulp x)"

definition js_add :: "rat \<Rightarrow> rat \<Rightarrow> rat" where
  "js_add x y = fl (x + y)"

definition js_mul :: "rat \<Rightarrow> rat \<Rightarrow> rat" where
  "js_mul x y = fl (x * y)"

definition js_div :: "rat \<Rightarrow> rat \<Rightarrow> rat" where
  "js_div x y = fl (x / y)"

text \<open>Truncation towards zero, and \<open>x % y\<close>, which is exact and has the sign of \<open>x\<close>.\<close>

definition trunc :: "rat \<Rightarrow> int" where
  "trunc x = (if 0 \<le> x then \<lfloor>x\<rfloor> else - \<lfloor>- x\<rfloor>)"

definition js_rem :: "rat \<Rightarrow> rat \<Rightarrow> rat" where
  "js_rem x y = x - y * of_int (trunc (x / y))"

section \<open>The LRC codec (\<open>parseLrc\<close>, \<open>stringifyLrc\<close>)\<close>

text \<open>The interface \<open>LrcLine\<close>; \<open>line_id\<close> is the index \<open>n\<close> of the identifier \<open>line-n\<close>.\<close>

record LrcLine =
  line_id :: nat
  seconds :: rat
  line_text :: jsstring

definition isDigit :: "jschar \<Rightarrow> bool" where
  "isDigit c = (48 \<le> c \<and> c \<le> 57)"

text \<open>The number written by a string of decimal digits.\<close>

definition digitsValue :: "jsstring \<Rightarrow> int" where
  "digitsValue ds = foldl (\<lambda>a c. 10 * a + (uint c - 48)) 0 ds"

text \<open>
  \<open>line.match(/^\[(\d{2}):(\d{2}\.\d{2,3})\](.*)/)\<close>: the three groups of a match. The
  fraction takes three digits when the third is followed by \<open>]\<close>, else two; the last group
  runs up to the first line terminator.
\<close>

definition matchLine :: "jsstring \<Rightarrow> (jsstring \<times> jsstring \<times> jsstring) option" where
  "matchLine line =
     (case line of
        c0 # m1 # m2 # c3 # s1 # s2 # c6 # f1 # f2 # rest \<Rightarrow>
          if c0 = 91 \<and> isDigit m1 \<and> isDigit m2 \<and> c3 = 58 \<and> isDigit s1 \<and> isDigit s2 \<and> c6 = 46
             \<and> isDigit f1 \<and> isDigit f2
          then (case rest of
                  [] \<Rightarrow> None
                | f3 # rest' \<Rightarrow>
                    if isDigit f3 \<and> (case rest' of c # _ \<Rightarrow> c = 93 | [] \<Rightarrow> False)
                    then Some ([m1, m2], [s1, s2, 46, f1, f2, f3],
                               takeWhile (\<lambda>c. \<not> isLineTerminator c) (tl rest'))
                    else if f3 = 93
                    then Some ([m1, m2], [s1, s2, 46, f1, f2],
                               takeWhile (\<lambda>c. \<not> isLineTerminator c) rest')
                    else None)
          else None
      | _ \<Rightarrow> None)"

text \<open>
  \<open>parseInt\<close> of two digits, and \<open>parseFloat\<close> of digits, a dot and digits: the double
  nearest to the decimal number written.
\<close>

definition parseInt :: "jsstring \<Rightarrow> rat" where
  "parseInt ds = of_int (digitsValue ds)"

definition parseFloat :: "jsstring \<Rightarrow> rat" where
  "parseFloat s =
     (let ip = takeWhile (\<lambda>c. c \<noteq> 46) s; fp = drop (length ip + 1) s
      in fl (of_int (digitsValue ip) + of_int (digitsValue fp) / 10 ^ length fp))"

definition parseLine :: "nat \<times> jsstring \<Rightarrow> LrcLine option" where
  "parseLine il =
     (case matchLine (snd il) of
        None \<Rightarrow> None
      | Some (g1, g2, g3) \<Rightarrow>
          Some \<lparr>line_id = fst il,
                seconds = js_add (js_mul (parseInt g1) 60) (parseFloat g2),
                line_text = trim g3\<rparr>)"

text \<open>The array \<open>result\<close> before it is sorted: the matching lines in the order of the text.\<close>

definition matchedLines :: "jsstring \<Rightarrow> LrcLine list" where
  "matchedLines lrc = List.map_filter parseLine (enumerate 0 (split_js [10] lrc))"

text \<open>
  \<open>result.sort((a, b) => a.seconds - b.seconds)\<close>: \<open>Array.prototype.sort\<close> is stable, and
  the difference of two doubles has the sign of their comparison, so this is the stable
  sort by \<open>seconds\<close>.
\<close>

definition parseLrc :: "jsstring \<Rightarrow> LrcLine list" where
  "parseLrc lrc = sort_key seconds (matchedLines lrc)"

subsection \<open>\<open>stringifyLrc\<close>\<close>

text \<open>Decimal digits of a non-negative integer, and \<open>String.prototype.padStart\<close>.\<close>

function digitsOf :: "int \<Rightarrow> jsstring" where
  "digitsOf n = (if n < 10 then [of_int (48 + n)] else digitsOf (n div 10) @ [of_int (48 + n mod 10)])"
  by pat_completeness auto
termination
  by (relation "measure nat") auto

declare digitsOf.simps [simp del]

definition padStart :: "nat \<Rightarrow> jschar \<Rightarrow> jsstring \<Rightarrow> jsstring" where
  "padStart n c s = replicate (n - length s) c @ s"

text \<open>
  \<open>Number.prototype.toString\<close> of an integral value, and \<open>toFixed(2)\<close>: the integer \<open>n\<close>
  nearest to \<open>100 * x\<close>, the larger one of two, written with at least three digits and a
  dot before the last two; a negative \<open>x\<close> is written as \<open>-\<close> and the form of \<open>- x\<close>. (From
  \<open>10 ^ 21\<close> on both switch to the exponent notation, which is not modelled.)
\<close>

definition intToString :: "int \<Rightarrow> jsstring" where
  "intToString n = (if n < 0 then 45 # digitsOf (- n) else digitsOf n)"

definition toFixed2 :: "rat \<Rightarrow> jsstring" where
  "toFixed2 x =
     (let a = \<bar>x\<bar>;
          m = padStart 3 48 (digitsOf \<lfloor>a * 100 + 1 / 2\<rfloor>);
          s = take (length m - 2) m @ 46 # drop (length m - 2) m
      in if x < 0 then 45 # s else s)"

definition formatLine :: "LrcLine \<Rightarrow> jsstring" where
  "formatLine line =
     (let min = \<lfloor>js_div (seconds line) 60\<rfloor>;
          sec = js_rem (seconds line) 60;
          secStr = padStart 5 48 (toFixed2 sec);
          minStr = padStart 2 48 (intToString min)
      in [91] @ minStr @ [58] @ secStr @ [93, 32] @ line_text line)"

text \<open>
  \<open>stringifyLrc(lines, metadata)\<close>: the header lines for a title and an artist that are
  present and not empty, then the lines joined by a line feed.
\<close>

definition headerLine :: "string \<Rightarrow> jsstring option \<Rightarrow> jsstring" where
  "headerLine tag v =
     (case v of
        Some x \<Rightarrow> if x \<noteq> [] then str tag @ x @ [93, 10] else []
      | None \<Rightarrow> [])"

definition stringifyLrc :: "LrcLine list \<Rightarrow> TrackMetadata option \<Rightarrow> jsstring" where
  "stringifyLrc lines md =
     (case md of
        Some m \<Rightarrow> headerLine ''[ti:'' (title m) @ headerLine ''[ar:'' (artist m)
      | None \<Rightarrow> [])
     @ join_js [10] (map formatLine lines)"


section \<open>The WAV encoder (\<open>bufferToWav\<close>)\<close>

text \<open>
  An element of the \<open>Float32Array\<close> of a channel: a single-precision value, which may be
  \<open>NaN\<close> or infinite. Both zeros are \<open>Fin 0\<close>: the encoder treats them alike. Reading a
  typed array past its end gives \<open>undefined\<close>, which \<open>Math.min\<close> turns into \<open>NaN\<close>.
\<close>

datatype sample = NaN | PosInfinity | NegInfinity | Fin rat

definition element :: "sample list \<Rightarrow> nat \<Rightarrow> sample" where
  "element ch i = (if i < length ch then ch ! i else NaN)"

text \<open>The finite single-precision values: 24 significant bits, exponents from \<open>- 126\<close>.\<close>

definition isFloat32 :: "rat \<Rightarrow> bool" where
  "isFloat32 x = (let s = x / 2 powi (max (expo x) (- 126) - 23)
                  in of_int \<lfloor>s\<rfloor> = s \<and> \<bar>x\<bar> < 2 powi 128)"

text \<open>\<open>Math.min(1, x)\<close>, \<open>Math.max(-1, y)\<close> and the clamp of line 38.\<close>

definition min1 :: "sample \<Rightarrow> sample" where
  "min1 x = (case x of NaN \<Rightarrow> NaN | PosInfinity \<Rightarrow> Fin 1 | NegInfinity \<Rightarrow> NegInfinity
             | Fin r \<Rightarrow> Fin (min 1 r))"

definition maxNeg1 :: "sample \<Rightarrow> sample" where
  "maxNeg1 y = (case y of NaN \<Rightarrow> NaN | PosInfinity \<Rightarrow> PosInfinity | NegInfinity \<Rightarrow> Fin (- 1)
                | Fin r \<Rightarrow> Fin (max (- 1) r))"

definition clamp :: "sample \<Rightarrow> sample" where
  "clamp x = maxNeg1 (min1 x)"

text \<open>
  \<open>0.5 + sample < 0 ? sample * 32768 : sample * 32767\<close>: the sum is compared, not the
  sample. A comparison with \<open>NaN\<close> is false.
\<close>

definition scale :: "sample \<Rightarrow> sample" where
  "scale s = (case s of
                Fin c \<Rightarrow> if js_add (1 / 2) c < 0 then Fin (js_mul c 32768) else Fin (js_mul c 32767)
              | NaN \<Rightarrow> NaN
              | PosInfinity \<Rightarrow> PosInfinity
              | NegInfinity \<Rightarrow> NegInfinity)"

text \<open>\<open>x | 0\<close>: truncation, modulo \<open>2 ^ 32\<close>, read as a signed number; 0 when \<open>x\<close> is not finite.\<close>

definition toInt32 :: "sample \<Rightarrow> int" where
  "toInt32 x = (case x of Fin r \<Rightarrow> (trunc r + 2 ^ 31) mod 2 ^ 32 - 2 ^ 31 | _ \<Rightarrow> 0)"

text \<open>The value of \<open>sample\<close> after lines 38 and 39.\<close>

definition encodeSample :: "sample \<Rightarrow> int" where
  "encodeSample x = toInt32 (scale (clamp x))"

text \<open>
  The rule in the words of the specification: clamp, scale a negative sample by 32768 and
  any other by 32767, truncate.
\<close>

definition specEncodeSample :: "rat \<Rightarrow> int" where
  "specEncodeSample x =
     (let c = max (- 1) (min 1 x) in trunc (if c < 0 then c * 32768 else c * 32767))"

subsection \<open>Writing through the \<open>DataView\<close>\<close>

text \<open>
  The bytes of a number written little-endian: \<open>setInt16\<close> and \<open>setUint16\<close> keep it modulo
  \<open>2 ^ 16\<close>, \<open>setUint32\<close> modulo \<open>2 ^ 32\<close>. A write that does not fit in the buffer throws.
\<close>

definition int16Bytes :: "int \<Rightarrow> byte list" where
  "int16Bytes v = [word_of_int v, word_of_int (v div 2 ^ 8)]"

definition uint32Bytes :: "int \<Rightarrow> byte list" where
  "uint32Bytes v = [word_of_int v, word_of_int (v div 2 ^ 8), word_of_int (v div 2 ^ 16),
                    word_of_int (v div 2 ^ 24)]"

definition setBytes :: "nat \<Rightarrow> byte list \<Rightarrow> byte list \<Rightarrow> exn + byte list" where
  "setBytes off bs buf =
     (if off + length bs \<le> length buf
      then Inr (take off buf @ bs @ drop (off + length bs) buf)
      else Inl RangeError)"

text \<open>The buffer behind \<open>view\<close> and the variable \<open>pos\<close>, which the two helpers advance.\<close>

record Writer =
  w_view :: "byte list"
  w_pos :: nat

definition setUint16 :: "int \<Rightarrow> Writer \<Rightarrow> exn + Writer" where
  "setUint16 d w =
     ebind (setBytes (w_pos w) (int16Bytes d) (w_view w))
       (\<lambda>v. Inr \<lparr>w_view = v, w_pos = w_pos w + 2\<rparr>)"

definition setUint32 :: "int \<Rightarrow> Writer \<Rightarrow> exn + Writer" where
  "setUint32 d w =
     ebind (setBytes (w_pos w) (uint32Bytes d) (w_view w))
       (\<lambda>v. Inr \<lparr>w_view = v, w_pos = w_pos w + 4\<rparr>)"

record AudioBuffer =
  sampleRate :: rat
  channelData :: "sample list list"

definition numberOfChannels :: "AudioBuffer \<Rightarrow> nat" where
  "numberOfChannels abuffer = length (channelData abuffer)"

text \<open>
  Lines 15 to 29. The sample rate and the byte rate are numbers, truncated when written;
  the counts are integers, taken to be below \<open>2 ^ 53\<close>.
\<close>

definition writeHeader :: "AudioBuffer \<Rightarrow> nat \<Rightarrow> nat \<Rightarrow> Writer \<Rightarrow> exn + Writer" where
  "writeHeader abuffer numOfChan byteLength w0 =
     ebind (setUint32 0x46464952 w0) (\<lambda>w.
     ebind (setUint32 (int byteLength - 8) w) (\<lambda>w.
     ebind (setUint32 0x45564157 w) (\<lambda>w.
     ebind (setUint32 0x20746d66 w) (\<lambda>w.
     ebind (setUint32 16 w) (\<lambda>w.
     ebind (setUint16 1 w) (\<lambda>w.
     ebind (setUint16 (int numOfChan) w) (\<lambda>w.
     ebind (setUint32 (trunc (sampleRate abuffer)) w) (\<lambda>w.
     ebind (setUint32 (trunc (js_mul (js_mul (sampleRate abuffer) 2) (of_nat numOfChan))) w) (\<lambda>w.
     ebind (setUint16 (int numOfChan * 2) w) (\<lambda>w.
     ebind (setUint16 16 w) (\<lambda>w.
     ebind (setUint32 0x61746164 w) (\<lambda>w.
     setUint32 (int byteLength - int (w_pos w) - 4) w))))))))))))"

text \<open>
  Lines 35 to 44: the inner loop over the channels and the outer loop over \<open>pos\<close>, which is
  the variable the header has advanced.
\<close>

function forChannels ::
  "sample list list \<Rightarrow> nat \<Rightarrow> nat \<Rightarrow> nat \<Rightarrow> byte list \<times> nat \<Rightarrow> exn + byte list \<times> nat" where
  "forChannels channels numOfChan pos i (v, offset) =
     (if i < numOfChan
      then (case setBytes (44 + offset) (int16Bytes (encodeSample (element (channels ! i) pos))) v of
              Inl e \<Rightarrow> Inl e
            | Inr v' \<Rightarrow> forChannels channels numOfChan pos (i + 1) (v', offset + 2))
      else Inr (v, offset))"
  by pat_completeness auto
termination
  by (relation "measure (\<lambda>(channels, numOfChan, pos, i, s). numOfChan - i)") auto

function whileLoop ::
  "sample list list \<Rightarrow> nat \<Rightarrow> nat \<Rightarrow> nat \<Rightarrow> byte list \<times> nat \<Rightarrow> exn + byte list" where
  "whileLoop channels numOfChan len pos (v, offset) =
     (if pos < len
      then (case forChannels channels numOfChan pos 0 (v, offset) of
              Inl e \<Rightarrow> Inl e
            | Inr s \<Rightarrow> whileLoop channels numOfChan len (pos + 1) s)
      else Inr v)"
  by pat_completeness auto
termination
  by (relation "measure (\<lambda>(channels, numOfChan, len, pos, s). len - pos)") auto

declare forChannels.simps [simp del]
declare whileLoop.simps [simp del]

definition bufferToWav :: "AudioBuffer \<Rightarrow> nat \<Rightarrow> exn + byte list" where
  "bufferToWav abuffer len =
     (let numOfChan = numberOfChannels abuffer;
          byteLength = len * numOfChan * 2 + 44;
          buffer = replicate byteLength 0
      in ebind (writeHeader abuffer numOfChan byteLength \<lparr>w_view = buffer, w_pos = 0\<rparr>)
           (\<lambda>w. whileLoop (channelData abuffer) numOfChan len (w_pos w) (w_view w, 0)))"

text \<open>The 44 bytes of the header, and the bytes of the samples at one position.\<close>

definition wavHeader :: "AudioBuffer \<Rightarrow> nat \<Rightarrow> byte list" where
  "wavHeader abuffer len =
     (let numOfChan = numberOfChannels abuffer; byteLength = len * numOfChan * 2 + 44
      in uint32Bytes 0x46464952 @ uint32Bytes (int byteLength - 8) @ uint32Bytes 0x45564157
         @ uint32Bytes 0x20746d66 @ uint32Bytes 16 @ int16Bytes 1 @ int16Bytes (int numOfChan)
         @ uint32Bytes (trunc (sampleRate abuffer))
         @ uint32Bytes (trunc (js_mul (js_mul (sampleRate abuffer) 2) (of_nat numOfChan)))
         @ int16Bytes (int numOfChan * 2) @ int16Bytes 16 @ uint32Bytes 0x61746164
         @ uint32Bytes (int byteLength - 44))"

definition frameBytes :: "sample list list \<Rightarrow> nat \<Rightarrow> byte list" where
  "frameBytes channels pos = concat (map (\<lambda>ch. int16Bytes (encodeSample (element ch pos))) channels)"
section \<open>geminiService.ts: the transcription call and its retries\<close>

definition MAX_RETRIES :: nat where
  "MAX_RETRIES = 3"

definition BASE_DELAY :: rat where
  "BASE_DELAY = 2000"

text \<open>
  A JavaScript value, as far as \<open>||\<close> and \<open>===\<close> tell values apart: \<open>JsNum\<close> is a finite
  number (both zeros are \<open>JsNum 0\<close>), \<open>JsInfinity\<close> either infinity, \<open>JsObject\<close> any object,
  function or symbol. \<open>truthy\<close> is \<open>ToBoolean\<close>.
\<close>

datatype jsval =
  JsUndefined | JsNull | JsBool bool | JsNum rat | JsNaN | JsInfinity | JsBigInt int
  | JsStr jsstring | JsObject

definition truthy :: "jsval \<Rightarrow> bool" where
  "truthy v =
     (case v of
        JsUndefined \<Rightarrow> False
      | JsNull \<Rightarrow> False
      | JsBool b \<Rightarrow> b
      | JsNum r \<Rightarrow> r \<noteq> 0
      | JsNaN \<Rightarrow> False
      | JsInfinity \<Rightarrow> True
      | JsBigInt n \<Rightarrow> n \<noteq> 0
      | JsStr s \<Rightarrow> s \<noteq> []
      | JsObject \<Rightarrow> True)"

text \<open>
  What the catch blocks read of a thrown object: the value of \<open>error.status\<close>, the value
  of \<open>error.response?.status\<close> (undefined when there is no response) and, in \<open>App.tsx\<close>,
  \<open>error.message\<close>. An absent property is \<open>JsUndefined\<close>. What is thrown is taken to be an
  object, as the errors of the client library and of \<open>new Error\<close> are.
\<close>

record JsError =
  err_status :: jsval
  err_response_status :: jsval
  err_message :: "jsstring option"

text \<open>\<open>new Error(message)\<close>.\<close>

definition newError :: "string \<Rightarrow> JsError" where
  "newError m =
     \<lparr>err_status = JsUndefined, err_response_status = JsUndefined, err_message = Some (str m)\<rparr>"

text \<open>
  One call of \<open>ai.models.generateContent\<close> either throws or answers with a response whose
  \<open>text\<close> may be undefined.
\<close>

datatype ApiOutcome = Throws JsError | Responds "jsstring option"

text \<open>The clean-up of the markdown fence: \<open>/^```lrc/\<close>, \<open>/^```/\<close> and \<open>/```$/\<close> replaced by nothing.\<close>

definition dropFenceEnd :: "jsstring \<Rightarrow> jsstring" where
  "dropFenceEnd s = (if suffix (str ''```'') s then take (length s - 3) s else s)"

definition cleanText :: "jsstring \<Rightarrow> jsstring" where
  "cleanText text =
     (let t = trim text in
      if prefix (str ''```lrc'') t then trim (dropFenceEnd (drop 6 t))
      else if prefix (str ''```'') t then trim (dropFenceEnd (drop 3 t))
      else trim t)"

text \<open>
  The body of the \<open>try\<close> block: the call, the test \<open>if (!text) throw\<close>, the clean-up. The
  left summand is what the \<open>catch\<close> receives.
\<close>

definition tryOnce :: "ApiOutcome \<Rightarrow> JsError + jsstring" where
  "tryOnce r =
     (case r of
        Throws e \<Rightarrow> Inl e
      | Responds None \<Rightarrow> Inl (newError ''No text generated from the model.'')
      | Responds (Some text) \<Rightarrow>
          if text = [] then Inl (newError ''No text generated from the model.'')
          else Inr (cleanText text))"

text \<open>
  \<open>const status = error.status || error.response?.status\<close>: the first operand when it is
  truthy, whatever it is, else the second. \<open>isTerminal\<close> compares it with \<open>===\<close>, which a value
  that is not a number never satisfies.
\<close>

definition errorStatus :: "JsError \<Rightarrow> jsval" where
  "errorStatus e = (if truthy (err_status e) then err_status e else err_response_status e)"

definition isTerminal :: "JsError \<Rightarrow> bool" where
  "isTerminal e =
     (let status = errorStatus e
      in status = JsNum 400 \<or> status = JsNum 401 \<or> status = JsNum 403 \<or> status = JsNum 404)"

text \<open>\<open>BASE_DELAY * Math.pow(2, attempt) + (Math.random() * 1000)\<close>, in milliseconds.\<close>

definition delay :: "nat \<Rightarrow> rat \<Rightarrow> rat" where
  "delay attempt random = js_add (js_mul BASE_DELAY (2 ^ attempt)) (js_mul random 1000)"

text \<open>
  What a run of \<open>generateLrcFromAudio\<close> does: the text returned or the error thrown, the
  number of calls made, and the delays waited, in order.
\<close>

record GenRun =
  outcome :: "JsError + jsstring"
  calls :: nat
  waits :: "rat list"

text \<open>
  The \<open>for\<close> loop from a given \<open>attempt\<close>, which is also the number of calls made so
  far. \<open>call k\<close> is the outcome of the call made in attempt \<open>k\<close> and \<open>random k\<close> the value
  \<open>Math.random()\<close> returns there. After the loop \<open>throw lastError || new Error(...)\<close>.
\<close>

function attemptLoop ::
  "(nat \<Rightarrow> ApiOutcome) \<Rightarrow> (nat \<Rightarrow> rat) \<Rightarrow> nat \<Rightarrow> JsError option \<Rightarrow> rat list \<Rightarrow> GenRun" where
  "attemptLoop call random attempt lastError ws =
     (if attempt \<le> MAX_RETRIES then
        case tryOnce (call attempt) of
          Inr text \<Rightarrow> \<lparr>outcome = Inr text, calls = attempt + 1, waits = ws\<rparr>
        | Inl e \<Rightarrow>
            if attempt = MAX_RETRIES \<or> isTerminal e
            then \<lparr>outcome = Inl e, calls = attempt + 1, waits = ws\<rparr>
            else attemptLoop call random (attempt + 1) (Some e)
                   (ws @ [delay attempt (random attempt)])
      else \<lparr>outcome = Inl (case lastError of
                             Some e \<Rightarrow> e
                           | None \<Rightarrow> newError ''Failed to generate content after multiple attempts.''),
             calls = attempt, waits = ws\<rparr>)"
  by pat_completeness auto
termination
  by (relation "measure (\<lambda>(call, random, attempt, lastError, ws). MAX_RETRIES + 1 - attempt)")
     auto

declare attemptLoop.simps [simp del]

text \<open>\<open>generateLrcFromAudio\<close>: without an API key nothing is called.\<close>

definition generateLrcFromAudio ::
  "jsstring option \<Rightarrow> (nat \<Rightarrow> ApiOutcome) \<Rightarrow> (nat \<Rightarrow> rat) \<Rightarrow> GenRun" where
  "generateLrcFromAudio apiKey call random =
     (if apiKey = None \<or> apiKey = Some []
      then \<lparr>outcome =
              Inl (newError
                ''API Key is missing. Please set it via the 'Set API Key' button or configure your environment.''),
            calls = 0, waits = []\<rparr>
      else attemptLoop call random 0 None [])"

text \<open>
  Four errors: a rate limit; a not-found status in \<open>error.status\<close>; the same carried by the
  response only; and a status that is a string, with the not-found status in the response.
\<close>

definition status429 :: JsError where
  "status429 = \<lparr>err_status = JsNum 429, err_response_status = JsUndefined, err_message = None\<rparr>"

definition status404 :: JsError where
  "status404 = \<lparr>err_status = JsNum 404, err_response_status = JsUndefined, err_message = None\<rparr>"

definition response404 :: JsError where
  "response404 = \<lparr>err_status = JsUndefined, err_response_status = JsNum 404, err_message = None\<rparr>"

definition unavailable404 :: JsError where
  "unavailable404 =
     \<lparr>err_status = JsStr (str ''UNAVAILABLE''), err_response_status = JsNum 404, err_message = None\<rparr>"
section \<open>types.ts: tracks\<close>

datatype TrackStatus = PENDING | ISOLATING | GENERATING | COMPLETED | ERROR

text \<open>The interface \<open>Track\<close>; its fields \<open>id\<close> and \<open>file\<close> are \<open>track_id\<close> and \<open>track_file\<close> here.\<close>

record Track =
  track_id :: jsstring
  track_file :: File
  previewUrl :: jsstring
  base64 :: jsstring
  mimeType :: jsstring
  originalLyrics :: jsstring
  useIsolation :: bool
  status :: TrackStatus
  lrcContent :: "jsstring option"
  error :: "jsstring option"
  metadata :: "TrackMetadata option"

section \<open>ConfigurationStep.tsx: matching uploaded LRC files to tracks\<close>

text \<open>
  \<open>content.match(/\[ti:(.*?)\]/i)\<close>. At one position: \<open>[\<close>, the two letters in either
  case, \<open>:\<close>, then the shortest run of code units other than line terminators that is
  followed by \<open>]\<close>. The first position, from the left, where this matches gives the capture.
  Without the \<open>u\<close> flag only the ASCII letter and its capital match a letter of the
  pattern.
\<close>

definition sameLetter :: "jschar \<Rightarrow> jschar \<Rightarrow> bool" where
  "sameLetter c letter = (c = letter \<or> c + 32 = letter)"

definition tagAt :: "jschar \<Rightarrow> jschar \<Rightarrow> jsstring \<Rightarrow> jsstring option" where
  "tagAt l1 l2 s =
     (case s of
        c0 # c1 # c2 # c3 # rest \<Rightarrow>
          if c0 = 91 \<and> sameLetter c1 l1 \<and> sameLetter c2 l2 \<and> c3 = 58
          then (case dropWhile (\<lambda>c. c \<noteq> 93 \<and> \<not> isLineTerminator c) rest of
                  d # _ \<Rightarrow>
                    if d = 93
                    then Some (takeWhile (\<lambda>c. c \<noteq> 93 \<and> \<not> isLineTerminator c) rest)
                    else None
                | [] \<Rightarrow> None)
          else None
      | _ \<Rightarrow> None)"

fun findTag :: "jschar \<Rightarrow> jschar \<Rightarrow> jsstring \<Rightarrow> jsstring option" where
  "findTag l1 l2 [] = None"
| "findTag l1 l2 (c # cs) =
     (case tagAt l1 l2 (c # cs) of Some cap \<Rightarrow> Some cap | None \<Rightarrow> findTag l1 l2 cs)"

text \<open>
  \<open>String.prototype.toLowerCase\<close> follows the Unicode case tables of the host, which are
  not part of the repository: the matching functions take it as the parameter \<open>lc\<close>. On
  strings of ASCII code units it is \<open>toLowerCaseAscii\<close>.
\<close>

definition toLowerCaseAscii :: "jsstring \<Rightarrow> jsstring" where
  "toLowerCaseAscii s = map (\<lambda>c. if 65 \<le> c \<and> c \<le> 90 then c + 32 else c) s"

record LrcUpload =
  lrc_name :: jsstring
  lrc_content :: jsstring

text \<open>The three tests of the callback of \<open>tracks.find\<close>, in the order of the source.\<close>

definition lrcName :: "(jsstring \<Rightarrow> jsstring) \<Rightarrow> LrcUpload \<Rightarrow> jsstring" where
  "lrcName lc f = trim (lc (stripExt (lrc_name f)))"

definition lrcTitle :: "(jsstring \<Rightarrow> jsstring) \<Rightarrow> LrcUpload \<Rightarrow> jsstring option" where
  "lrcTitle lc f = map_option (\<lambda>cap. lc (trim cap)) (findTag 116 105 (lrc_content f))"

definition lrcArtist :: "(jsstring \<Rightarrow> jsstring) \<Rightarrow> LrcUpload \<Rightarrow> jsstring option" where
  "lrcArtist lc f = map_option (\<lambda>cap. lc (trim cap)) (findTag 97 114 (lrc_content f))"

definition trackName :: "(jsstring \<Rightarrow> jsstring) \<Rightarrow> Track \<Rightarrow> jsstring" where
  "trackName lc t = trim (lc (stripExt (file_name (track_file t))))"

definition exactMatch :: "(jsstring \<Rightarrow> jsstring) \<Rightarrow> LrcUpload \<Rightarrow> Track \<Rightarrow> bool" where
  "exactMatch lc f t = (trackName lc t = lrcName lc f)"

definition titleMatch :: "(jsstring \<Rightarrow> jsstring) \<Rightarrow> LrcUpload \<Rightarrow> Track \<Rightarrow> bool" where
  "titleMatch lc f t =
     (case lrcTitle lc f of
        Some ti \<Rightarrow> ti \<noteq> [] \<and> length ti > 3 \<and> includes_js ti (trackName lc t)
      | None \<Rightarrow> False)"

definition artistMatch :: "(jsstring \<Rightarrow> jsstring) \<Rightarrow> LrcUpload \<Rightarrow> Track \<Rightarrow> bool" where
  "artistMatch lc f t =
     (case lrcArtist lc f of
        Some ar \<Rightarrow> ar \<noteq> [] \<and> length ar > 3 \<and> prefix ar (trackName lc t)
      | None \<Rightarrow> False)"

definition matchesTrack :: "(jsstring \<Rightarrow> jsstring) \<Rightarrow> LrcUpload \<Rightarrow> Track \<Rightarrow> bool" where
  "matchesTrack lc f t =
     (if exactMatch lc f t then True
      else if titleMatch lc f t then True
      else if artistMatch lc f t then True
      else False)"

text \<open>\<open>tracks.find(...)\<close>: the first track of the list for which the callback is true.\<close>

definition matchTrack :: "(jsstring \<Rightarrow> jsstring) \<Rightarrow> Track list \<Rightarrow> LrcUpload \<Rightarrow> Track option" where
  "matchTrack lc tracks f = List.find (matchesTrack lc f) tracks"

text \<open>
  \<open>handleBulkLrcUpload\<close> starts one \<open>FileReader\<close> per file and returns; the work is done
  by the \<open>onload\<close> callbacks, which run one at a time, in the order in which the reads
  complete, over the shared variables \<open>updates\<close> and \<open>processedCount\<close>. \<open>BulkState\<close> holds
  these two and what the last callback did: the updates passed to \<open>onBulkUploadLrc\<close> with
  the number shown in the message \<open>Matched n LRC files\<close>, or no update and the message
  \<open>No matching tracks found\<close>. (The row that \<open>setExpandedTrackId\<close> may close is not part of
  the state.)
\<close>

datatype BulkReport = Matched nat | NoMatchingTracks

record BulkState =
  bulk_updates :: "(jsstring \<times> jsstring) list"
  processedCount :: nat
  bulk_shown :: "((jsstring \<times> jsstring) list \<times> BulkReport) option"

text \<open>One \<open>onload\<close> callback, for the file \<open>f\<close> with the text read from it; \<open>n\<close> is \<open>fileList.length\<close>.\<close>

definition onload :: "(jsstring \<Rightarrow> jsstring) \<Rightarrow> Track list \<Rightarrow> nat \<Rightarrow> LrcUpload \<Rightarrow> BulkState \<Rightarrow> BulkState" where
  "onload lc tracks n f st =
     (let updates = (case matchTrack lc tracks f of
                       Some track \<Rightarrow> bulk_updates st @ [(track_id track, lrc_content f)]
                     | None \<Rightarrow> bulk_updates st);
          count = processedCount st + 1
      in if count = n
         then \<lparr>bulk_updates = updates, processedCount = count,
               bulk_shown = Some (if length updates > 0 then (updates, Matched (length updates))
                                  else ([], NoMatchingTracks))\<rparr>
         else \<lparr>bulk_updates = updates, processedCount = count, bulk_shown = bulk_shown st\<rparr>)"

text \<open>
  \<open>handleBulkLrcUpload\<close> for the file list \<open>files\<close>, when \<open>loaded\<close> are the files whose read
  completed, in the order of completion: what was shown in the end, or \<open>None\<close> when nothing
  was. With an empty file list the handler returns at once (line 83). A read that fails
  calls nothing, so the count never reaches the number of files.
\<close>

definition handleBulkLrcUpload ::
  "(jsstring \<Rightarrow> jsstring) \<Rightarrow> Track list \<Rightarrow> LrcUpload list \<Rightarrow> LrcUpload list
   \<Rightarrow> ((jsstring \<times> jsstring) list \<times> BulkReport) option" where
  "handleBulkLrcUpload lc tracks files loaded =
     (if files = [] then None
      else bulk_shown
             (foldl (\<lambda>st f. onload lc tracks (length files) f st)
                \<lparr>bulk_updates = [], processedCount = 0, bulk_shown = None\<rparr> loaded))"

text \<open>
  The matching rule in the words of the specification: the criteria are tried one after
  the other over the whole track list, and a later criterion counts only when the
  earlier ones match no track.
\<close>

definition specPriorityMatch :: "(jsstring \<Rightarrow> jsstring) \<Rightarrow> Track list \<Rightarrow> LrcUpload \<Rightarrow> Track option" where
  "specPriorityMatch lc tracks f =
     (case List.find (exactMatch lc f) tracks of
        Some t \<Rightarrow> Some t
      | None \<Rightarrow>
          (case List.find (titleMatch lc f) tracks of
             Some t \<Rightarrow> Some t
           | None \<Rightarrow> List.find (artistMatch lc f) tracks))"

text \<open>
  Two tracks and an upload for the comparison of the two rules, and an upload that matches
  neither track.
\<close>

definition demoTrack :: "string \<Rightarrow> string \<Rightarrow> Track" where
  "demoTrack i n =
     \<lparr>track_id = str i, track_file = \<lparr>file_name = str n, file_bytes = []\<rparr>, previewUrl = [],
      base64 = [], mimeType = str ''audio/mpeg'', originalLyrics = [], useIsolation = False,
      status = PENDING, lrcContent = None, error = None, metadata = None\<rparr>"

definition demoUpload :: LrcUpload where
  "demoUpload = \<lparr>lrc_name = str ''song b.lrc'', lrc_content = str ''[ti:Song][00:01.00] la''\<rparr>"

definition otherUpload :: LrcUpload where
  "otherUpload = \<lparr>lrc_name = str ''other.lrc'', lrc_content = str ''[00:01.00] la''\<rparr>"
section \<open>App.tsx: processing the tracks of a batch\<close>

text \<open>
  \<open>setTracks(prev => prev.map(t => t.id === id ? f t : t))\<close>: every state update of
  \<open>processTrack\<close> has this form.
\<close>

definition applyTo :: "jsstring \<Rightarrow> (Track \<Rightarrow> Track) \<Rightarrow> Track list \<Rightarrow> Track list" where
  "applyTo i f ts = map (\<lambda>t. if track_id t = i then f t else t) ts"

text \<open>The four updates of \<open>processTrack\<close>. \<open>error.message || "Generation Failed"\<close>.\<close>

definition markStarted :: "Track \<Rightarrow> Track" where
  "markStarted t = t\<lparr>status := (if useIsolation t then ISOLATING else GENERATING), error := None\<rparr>"

definition markGenerating :: "Track \<Rightarrow> Track" where
  "markGenerating t = t\<lparr>status := GENERATING\<rparr>"

definition markCompleted :: "jsstring \<Rightarrow> Track \<Rightarrow> Track" where
  "markCompleted result t = t\<lparr>status := COMPLETED, lrcContent := Some result, error := None\<rparr>"

definition messageOf :: "JsError \<Rightarrow> jsstring" where
  "messageOf e =
     (case err_message e of
        Some m \<Rightarrow> if m \<noteq> [] then m else str ''Generation Failed''
      | None \<Rightarrow> str ''Generation Failed'')"

definition markError :: "JsError \<Rightarrow> Track \<Rightarrow> Track" where
  "markError e t = t\<lparr>status := ERROR, error := Some (messageOf e)\<rparr>"

text \<open>
  \<open>processTrack track\<close> as the sequence of its state updates. The two awaited steps are
  parameters: \<open>isolate\<close> is the outcome of \<open>isolateVocals(track.file)\<close> and \<open>generate\<close> that of
  \<open>generateLrcFromAudio\<close> for a payload, a MIME type and the reference lyrics; each either
  throws or returns. An exception of either step is caught by the one \<open>catch\<close> block.
\<close>

definition generationUpdates ::
  "(jsstring \<Rightarrow> jsstring \<Rightarrow> jsstring \<Rightarrow> JsError + jsstring) \<Rightarrow> jsstring \<Rightarrow> jsstring \<Rightarrow> Track
     \<Rightarrow> (Track \<Rightarrow> Track) list" where
  "generationUpdates generate finalBase64 finalMimeType track =
     (case generate finalBase64 finalMimeType (originalLyrics track) of
        Inl e \<Rightarrow> [markError e]
      | Inr result \<Rightarrow> [markCompleted result])"

definition processTrack ::
  "(File \<Rightarrow> JsError + jsstring) \<Rightarrow> (jsstring \<Rightarrow> jsstring \<Rightarrow> jsstring \<Rightarrow> JsError + jsstring) \<Rightarrow> Track
     \<Rightarrow> (Track \<Rightarrow> Track) list" where
  "processTrack isolate generate track =
     markStarted #
     (if useIsolation track
      then (case isolate (track_file track) of
              Inl e \<Rightarrow> [markError e]
            | Inr processedBase64 \<Rightarrow>
                markGenerating # generationUpdates generate processedBase64 (str ''audio/wav'') track)
      else generationUpdates generate (base64 track) (mimeType track) track)"

text \<open>
  \<open>handleGenerateAll\<close>: the filter for the pending tracks; \<open>!t.lrcContent\<close> holds for an
  absent or empty string.
\<close>

definition isPending :: "Track \<Rightarrow> bool" where
  "isPending t =
     (status t \<noteq> COMPLETED
      \<and> (case lrcContent t of None \<Rightarrow> True | Some c \<Rightarrow> c = [] \<or> length (trim c) = 0))"

definition CONCURRENCY_LIMIT :: nat where
  "CONCURRENCY_LIMIT = 3"

text \<open>
  The worker pool. The state holds the track list, the queue, and for every worker the
  track it processes with the number of that track's updates already made (\<open>None\<close>: the
  worker is at the head of its \<open>while\<close> loop).
\<close>

record Pool =
  pool_tracks :: "Track list"
  pool_queue :: "Track list"
  pool_workers :: "(Track \<times> nat) option list"

definition startPool :: "Track list \<Rightarrow> Pool" where
  "startPool ts =
     (let pendingTracks = filter isPending ts
      in \<lparr>pool_tracks = ts, pool_queue = pendingTracks,
          pool_workers = replicate (min CONCURRENCY_LIMIT (length pendingTracks)) None\<rparr>)"

text \<open>
  The steps of the pool, in any order the awaited promises allow: a worker at the head of
  its loop takes the first track off the queue, and \<open>processTrack\<close> makes its first update
  before it first awaits; a worker makes the next update of its track; a worker whose
  track has no update left is back at the head of its loop.
\<close>

inductive poolStep ::
  "(File \<Rightarrow> JsError + jsstring) \<Rightarrow> (jsstring \<Rightarrow> jsstring \<Rightarrow> jsstring \<Rightarrow> JsError + jsstring)
     \<Rightarrow> Pool \<Rightarrow> Pool \<Rightarrow> bool"
  for isolate generate where
  shift:
    "i < length (pool_workers s) \<Longrightarrow> pool_workers s ! i = None \<Longrightarrow> pool_queue s = t # q \<Longrightarrow>
     poolStep isolate generate s
       \<lparr>pool_tracks = applyTo (track_id t) (processTrack isolate generate t ! 0) (pool_tracks s),
        pool_queue = q, pool_workers = (pool_workers s)[i := Some (t, 1)]\<rparr>"
| update:
    "i < length (pool_workers s) \<Longrightarrow> pool_workers s ! i = Some (t, k) \<Longrightarrow>
     k < length (processTrack isolate generate t) \<Longrightarrow>
     poolStep isolate generate s
       \<lparr>pool_tracks = applyTo (track_id t) (processTrack isolate generate t ! k) (pool_tracks s),
        pool_queue = pool_queue s, pool_workers = (pool_workers s)[i := Some (t, k + 1)]\<rparr>"
| finish:
    "i < length (pool_workers s) \<Longrightarrow> pool_workers s ! i = Some (t, k) \<Longrightarrow>
     k = length (processTrack isolate generate t) \<Longrightarrow>
     poolStep isolate generate s
       \<lparr>pool_tracks = pool_tracks s, pool_queue = pool_queue s, pool_workers = (pool_workers s)[i := None]\<rparr>"

text \<open>\<open>await Promise.all(workers)\<close> is over when the queue is empty and no worker holds a track.\<close>

definition poolDone :: "Pool \<Rightarrow> bool" where
  "poolDone s = (pool_queue s = [] \<and> list_all (\<lambda>w. w = None) (pool_workers s))"

definition handleGenerateAll ::
  "(File \<Rightarrow> JsError + jsstring) \<Rightarrow> (jsstring \<Rightarrow> jsstring \<Rightarrow> jsstring \<Rightarrow> JsError + jsstring)
     \<Rightarrow> Track list \<Rightarrow> Track list \<Rightarrow> bool" where
  "handleGenerateAll isolate generate ts ts' =
     (\<exists>s. (poolStep isolate generate)\<^sup>*\<^sup>* (startPool ts) s \<and> poolDone s \<and> pool_tracks s = ts')"

text \<open>What \<open>processTrack\<close> makes of a track when nothing else touches it.\<close>

definition processed ::
  "(File \<Rightarrow> JsError + jsstring) \<Rightarrow> (jsstring \<Rightarrow> jsstring \<Rightarrow> jsstring \<Rightarrow> JsError + jsstring) \<Rightarrow> Track
     \<Rightarrow> Track" where
  "processed isolate generate t = fold (\<lambda>u x. u x) (processTrack isolate generate t) t"

text \<open>
  The invariant of the pool for the track list \<open>ts\<close> it started from: the queue and the
  workers hold pending tracks of \<open>ts\<close>, each at most once, and the track at every position
  is the original one while it is skipped or queued, has the first \<open>k\<close> updates of
  \<open>processTrack\<close> while a worker holds it at \<open>k\<close>, and all of them afterwards.
\<close>

definition poolInv ::
  "(File \<Rightarrow> JsError + jsstring) \<Rightarrow> (jsstring \<Rightarrow> jsstring \<Rightarrow> jsstring \<Rightarrow> JsError + jsstring)
     \<Rightarrow> Track list \<Rightarrow> Pool \<Rightarrow> bool" where
  "poolInv isolate generate ts s =
     (length (pool_tracks s) = length ts
      \<and> distinct (pool_queue s)
      \<and> (\<forall>t \<in> set (pool_queue s). t \<in> set ts \<and> isPending t)
      \<and> (\<forall>i < length (pool_workers s). \<forall>t k. pool_workers s ! i = Some (t, k) \<longrightarrow>
            t \<in> set ts \<and> isPending t \<and> t \<notin> set (pool_queue s)
            \<and> 1 \<le> k \<and> k \<le> length (processTrack isolate generate t)
            \<and> (\<forall>i' < length (pool_workers s). \<forall>k'. pool_workers s ! i' = Some (t, k') \<longrightarrow> i' = i))
      \<and> (\<forall>j < length ts.
            (\<not> isPending (ts ! j) \<longrightarrow> pool_tracks s ! j = ts ! j)
            \<and> (ts ! j \<in> set (pool_queue s) \<longrightarrow> pool_tracks s ! j = ts ! j)
            \<and> (\<forall>i < length (pool_workers s). \<forall>k. pool_workers s ! i = Some (ts ! j, k) \<longrightarrow>
                  pool_tracks s ! j
                    = fold (\<lambda>u x. u x) (take k (processTrack isolate generate (ts ! j))) (ts ! j))
            \<and> (isPending (ts ! j) \<and> ts ! j \<notin> set (pool_queue s)
                 \<and> (\<forall>i < length (pool_workers s). \<forall>k. pool_workers s ! i \<noteq> Some (ts ! j, k)) \<longrightarrow>
                  pool_tracks s ! j = processed isolate generate (ts ! j))))"

section \<open>Properties of the string operations\<close>

lemma split_from_not_Nil: "split_from sep cur s \<noteq> []"
  by (induction sep cur s rule: split_from.induct) auto

lemma join_js_Cons: "qs \<noteq> [] \<Longrightarrow> join_js sep (p # qs) = p @ sep @ join_js sep qs"
  by (cases qs) auto

lemma join_split_from: "join_js sep (split_from sep cur s) = cur @ s"
proof (induction sep cur s rule: split_from.induct)
  case (1 sep cur)
  show ?case by simp
next
  case (2 sep cur c cs)
  show ?case
  proof (cases "sep \<noteq> [] \<and> prefix sep (c # cs)")
    case True
    then have cut: "sep @ drop (length sep) (c # cs) = c # cs"
      by (metis append_eq_conv_conj prefix_def)
    have "join_js sep (split_from sep cur (c # cs)) =
        cur @ sep @ join_js sep (split_from sep [] (drop (length sep) (c # cs)))"
      using True by (simp add: join_js_Cons split_from_not_Nil)
    also have "\<dots> = cur @ sep @ drop (length sep) (c # cs)"
      using 2(1) [OF True] by simp
    finally show ?thesis
      using cut by simp
  next
    case False
    with 2 show ?thesis by auto
  qed
qed

lemma includes_js_iff: "includes_js sep s \<longleftrightarrow> (\<exists>a r. s = a @ sep @ r)"
proof (induction s)
  case Nil
  show ?case by auto
next
  case (Cons c cs)
  show ?case
  proof
    assume "includes_js sep (c # cs)"
    then consider "prefix sep (c # cs)" | "includes_js sep cs" by auto
    then show "\<exists>a r. c # cs = a @ sep @ r"
    proof cases
      case 1
      then obtain r where "c # cs = sep @ r" by (auto simp: prefix_def)
      then have "c # cs = [] @ sep @ r" by simp
      then show ?thesis by blast
    next
      case 2
      with Cons obtain a r where "cs = a @ sep @ r" by auto
      then have "c # cs = (c # a) @ sep @ r" by simp
      then show ?thesis by blast
    qed
  next
    assume "\<exists>a r. c # cs = a @ sep @ r"
    then obtain a r where ar: "c # cs = a @ sep @ r" by auto
    show "includes_js sep (c # cs)"
    proof (cases a)
      case Nil
      with ar have "prefix sep (c # cs)" by (metis append_Nil prefixI)
      then show ?thesis by simp
    next
      case (Cons a0 as)
      with ar have "cs = as @ sep @ r" by simp
      with Cons.IH show ?thesis by auto
    qed
  qed
qed

lemma split_from_no_sep: "\<not> includes_js sep s \<Longrightarrow> split_from sep cur s = [cur @ s]"
  by (induction sep cur s rule: split_from.induct) auto

text \<open>
  Cutting at the first occurrence: when \<open>sep\<close> does not occur in \<open>a @ butlast sep\<close>, the
  occurrence of \<open>sep\<close> at the end of \<open>a\<close> is the leftmost one of \<open>a @ sep @ r\<close>.
\<close>

lemma split_from_first:
  "sep \<noteq> [] \<Longrightarrow> \<not> includes_js sep (a @ butlast sep) \<Longrightarrow>
     split_from sep cur (a @ sep @ r) = (cur @ a) # split_from sep [] r"
proof (induction a arbitrary: cur)
  case Nil
  then obtain c cs where "sep = c # cs" by (cases sep) auto
  then show ?case by simp
next
  case (Cons x a)
  have no: "\<not> prefix sep ((x # a) @ butlast sep)" and rest: "\<not> includes_js sep (a @ butlast sep)"
    using Cons.prems(2) by auto
  have "\<not> prefix sep (x # a @ sep @ r)"
  proof
    assume "prefix sep (x # a @ sep @ r)"
    then have "sep = take (length sep) (x # a @ sep @ r)"
      by (metis append_eq_conv_conj prefix_def)
    also have "\<dots> = take (length sep) (((x # a) @ butlast sep) @ (last sep # r))"
      using append_butlast_last_id [OF Cons.prems(1)] by (metis append.assoc append_Cons append_Nil)
    also have "\<dots> = take (length sep) ((x # a) @ butlast sep)"
      using Cons.prems(1) by (cases sep rule: rev_cases) auto
    finally have "prefix sep ((x # a) @ butlast sep)"
      by (metis take_is_prefix)
    with no show False by simp
  qed
  with Cons.IH [OF Cons.prems(1) rest] show ?case by simp
qed

lemma first_occurrence:
  "includes_js sep s \<Longrightarrow> sep \<noteq> [] \<Longrightarrow>
     \<exists>a r. s = a @ sep @ r \<and> \<not> includes_js sep (a @ butlast sep)"
proof (induction s)
  case Nil
  then show ?case by simp
next
  case (Cons c cs)
  show ?case
  proof (cases "prefix sep (c # cs)")
    case True
    then obtain r where "c # cs = [] @ sep @ r" by (auto simp: prefix_def)
    moreover have "\<not> includes_js sep ([] @ butlast sep)"
    proof
      assume "includes_js sep ([] @ butlast sep)"
      then obtain a r where "butlast sep = a @ sep @ r"
        by (auto simp: includes_js_iff)
      then have "length (butlast sep) = length a + length sep + length r"
        by simp
      with Cons.prems(2) show False
        by (cases sep rule: rev_cases) auto
    qed
    ultimately show ?thesis by blast
  next
    case False
    with Cons obtain a r where ar: "cs = a @ sep @ r" "\<not> includes_js sep (a @ butlast sep)"
      by auto
    have "\<not> prefix sep ((c # a) @ butlast sep)"
    proof
      assume "prefix sep ((c # a) @ butlast sep)"
      then have "prefix sep (((c # a) @ butlast sep) @ (last sep # r))"
        using prefix_prefix by blast
      moreover have "((c # a) @ butlast sep) @ (last sep # r) = c # cs"
        using ar(1) append_butlast_last_id [OF Cons.prems(2)]
        by (metis append.assoc append_Cons append_Nil)
      ultimately show False using False by simp
    qed
    with ar have "c # cs = (c # a) @ sep @ r \<and> \<not> includes_js sep ((c # a) @ butlast sep)"
      by simp
    then show ?thesis by blast
  qed
qed

lemma stripExt_ext: "extTail e \<Longrightarrow> stripExt (p @ 46 # e) = p"
  by (induction p) (auto simp: extTail_def)

lemma stripExt_none: "\<not> (\<exists>p e. s = p @ 46 # e \<and> extTail e) \<Longrightarrow> stripExt s = s"
proof (induction s)
  case Nil
  show ?case by simp
next
  case (Cons c cs)
  have "\<not> (c = 46 \<and> extTail cs)"
    using Cons.prems by (metis append_Nil)
  moreover have "\<not> (\<exists>p e. cs = p @ 46 # e \<and> extTail e)"
    using Cons.prems by (metis append_Cons)
  ultimately show ?case using Cons.IH by simp
qed

section \<open>Properties of the tag reader\<close>

lemma trim_Nil: "trim [] = []"
  by (simp add: trim_def)

lemma dropWhile_rev_hd:
  assumes "dropWhile P (rev xs) \<noteq> []" "xs \<noteq> []" "\<not> P (hd xs)"
  shows "hd (rev (dropWhile P (rev xs))) = hd xs"
proof -
  obtain x ys where xs: "xs = x # ys" using assms(2) by (cases xs) auto
  have "dropWhile P (rev ys @ [x]) = dropWhile P (rev ys) @ [x]"
    using assms(3) xs by (simp add: dropWhile_append3)
  then show ?thesis using xs by simp
qed

lemma trim_idem: "trim (trim s) = trim s"
proof (cases "trim s = []")
  case True
  then show ?thesis by (simp add: trim_Nil)
next
  case False
  define u where "u = dropWhile isWhiteSpace s"
  define w where "w = dropWhile isWhiteSpace (rev u)"
  have t: "trim s = rev w" by (simp add: trim_def u_def w_def)
  with False have w: "w \<noteq> []" by simp
  then have u: "u \<noteq> []" by (auto simp: w_def)
  have hu: "\<not> isWhiteSpace (hd u)"
    using u unfolding u_def by (rule hd_dropWhile)
  have hw: "\<not> isWhiteSpace (hd w)"
    using w unfolding w_def by (rule hd_dropWhile)
  have "hd (rev w) = hd u"
    using dropWhile_rev_hd [of isWhiteSpace u] w u hu by (simp add: w_def)
  with hu have "dropWhile isWhiteSpace (rev w) = rev w"
    using w by (simp add: dropWhile_eq_self_iff)
  moreover have "dropWhile isWhiteSpace w = w"
    using hw w by (simp add: dropWhile_eq_self_iff)
  ultimately have "trim (rev w) = rev w"
    by (simp add: trim_def)
  then show ?thesis
    by (simp add: t)
qed

lemma walk_walkFrames:
  "fst (walk buf version tagSize limit offset st)
     = foldl (\<lambda>st (f, text). assign f text st) st (walkFrames buf version tagSize limit offset)"
proof (induction buf version tagSize limit offset st rule: walk.induct)
  case (1 buf version tagSize limit offset st)
  show ?case
  proof (cases "offset < limit")
    case False
    then show ?thesis by (simp add: walk.simps walkFrames.simps)
  next
    case True
    show ?thesis
    proof (cases "frameAt buf version tagSize limit offset")
      case (Done e)
      with True show ?thesis by (simp add: walk.simps walkFrames.simps)
    next
      case (Next f tx offset')
      with True 1 show ?thesis
        by (simp add: walk.simps [of _ _ _ _ offset] walkFrames.simps [of _ _ _ _ offset])
    qed
  qed
qed

lemma frameText_trimmed: "frameText buf offset frameSize = Inr t \<Longrightarrow> trim t = t"
  by (auto simp: frameText_def ebind_def Let_def trim_idem split: sum.splits if_splits)

lemma frameAt_trimmed: "frameAt buf version tagSize limit offset = Next f (Some t) off' \<Longrightarrow> trim t = t"
  by (auto simp: frameAt_def Let_def split: if_splits sum.splits dest: frameText_trimmed)

lemma walkFrames_trimmed:
  "(f, Some t) \<in> set (walkFrames buf version tagSize limit offset) \<Longrightarrow> trim t = t"
proof (induction buf version tagSize limit offset rule: walkFrames.induct)
  case (1 buf version tagSize limit offset)
  show ?case
  proof (cases "offset < limit")
    case False
    with 1(2) show ?thesis by (simp add: walkFrames.simps)
  next
    case True
    show ?thesis
    proof (cases "frameAt buf version tagSize limit offset")
      case (Done e)
      with True 1(2) show ?thesis by (simp add: walkFrames.simps)
    next
      case (Next g tx offset')
      with True 1(2) have "(f, Some t) = (g, tx) \<or> (f, Some t) \<in> set (walkFrames buf version tagSize limit offset')"
        by (simp add: walkFrames.simps [of _ _ _ _ offset])
      then show ?thesis
      proof
        assume "(f, Some t) = (g, tx)"
        with Next show ?thesis by (auto dest: frameAt_trimmed)
      next
        assume "(f, Some t) \<in> set (walkFrames buf version tagSize limit offset')"
        with 1(1) [OF True Next] show ?thesis by simp
      qed
    qed
  qed
qed

lemma TIT2_TPE1: "str ''TIT2'' \<noteq> str ''TPE1''"
  by (simp add: str_def)

lemma assign_title:
  "id3Title (assign f tx st)
     = (case tx of Some t \<Rightarrow> if f = str ''TIT2'' \<and> t \<noteq> [] then Some t else id3Title st
        | None \<Rightarrow> id3Title st)"
  using TIT2_TPE1 by (cases tx) (auto simp: assign_def Let_def)

lemma assign_artist:
  "id3Artist (assign f tx st)
     = (case tx of Some t \<Rightarrow> if f = str ''TPE1'' \<and> t \<noteq> [] then Some t else id3Artist st
        | None \<Rightarrow> id3Artist st)"
  using TIT2_TPE1 by (cases tx) (auto simp: assign_def Let_def)

lemma foldl_assign_title:
  "id3Title (foldl (\<lambda>st (f, tx). assign f tx st) st frames)
     = (if nonEmptyTexts (str ''TIT2'') frames = [] then id3Title st
        else Some (last (nonEmptyTexts (str ''TIT2'') frames)))"
proof (induction frames arbitrary: st)
  case Nil
  show ?case by simp
next
  case (Cons fr frames)
  obtain f tx where fr: "fr = (f, tx)" by (cases fr)
  show ?case
    by (cases tx) (simp_all add: fr Cons assign_title)
qed

lemma foldl_assign_artist:
  "id3Artist (foldl (\<lambda>st (f, tx). assign f tx st) st frames)
     = (if nonEmptyTexts (str ''TPE1'') frames = [] then id3Artist st
        else Some (last (nonEmptyTexts (str ''TPE1'') frames)))"
proof (induction frames arbitrary: st)
  case Nil
  show ?case by simp
next
  case (Cons fr frames)
  obtain f tx where fr: "fr = (f, tx)" by (cases fr)
  show ?case
    by (cases tx) (simp_all add: fr Cons assign_artist)
qed

lemma readId3_frames:
  "fst (readId3 buf) = foldl (\<lambda>st (f, text). assign f text st) noTags (id3Frames buf)"
  by (auto simp: readId3_def id3Frames_def walk_walkFrames split: sum.splits bool.splits prod.splits)

lemma nonEmptyTexts_set:
  "t \<in> set (nonEmptyTexts fid frames) \<Longrightarrow> (fid, Some t) \<in> set frames \<and> t \<noteq> []"
  by (induction fid frames rule: nonEmptyTexts.induct) (auto split: if_splits)

lemma id3Frames_trimmed: "(f, Some t) \<in> set (id3Frames buf) \<Longrightarrow> trim t = t"
  by (auto simp: id3Frames_def split: sum.splits bool.splits prod.splits dest: walkFrames_trimmed)


section \<open>Properties of rounding to a double\<close>

lemma rne_of_int: "rne (of_int n) = n"
  by (simp add: rne_def)

lemma rne_mono: "x \<le> y \<Longrightarrow> rne x \<le> rne y"
proof -
  assume xy: "x \<le> y"
  have fx: "\<lfloor>x\<rfloor> \<le> \<lfloor>y\<rfloor>" using xy by (rule floor_mono)
  have rx: "rne x = \<lfloor>x\<rfloor> \<or> rne x = \<lfloor>x\<rfloor> + 1" by (auto simp: rne_def Let_def)
  have ry: "\<lfloor>y\<rfloor> \<le> rne y" by (auto simp: rne_def Let_def)
  show ?thesis
  proof (cases "\<lfloor>x\<rfloor> < \<lfloor>y\<rfloor>")
    case True
    with rx ry show ?thesis by linarith
  next
    case False
    with fx have eq: "\<lfloor>x\<rfloor> = \<lfloor>y\<rfloor>" by simp
    then have "x - of_int \<lfloor>x\<rfloor> \<le> y - of_int \<lfloor>y\<rfloor>" using xy by simp
    then show ?thesis
      unfolding rne_def Let_def eq by auto
  qed
qed

lemma rne_uminus: "rne (- x) = - rne x"
proof (cases "x = of_int \<lfloor>x\<rfloor>")
  case True
  then obtain n where n: "x = of_int n" by metis
  then have "- x = of_int (- n)" by simp
  then show ?thesis using n by (metis rne_of_int)
next
  case False
  then have "\<lceil>x\<rceil> = \<lfloor>x\<rfloor> + 1"
    by (simp add: ceiling_altdef)
  then have f: "\<lfloor>- x\<rfloor> = - \<lfloor>x\<rfloor> - 1"
    by (simp add: floor_minus)
  show ?thesis
    unfolding rne_def Let_def f by (auto; linarith?)
qed

lemma two_powi_pos: "0 < (2::rat) powi e"
  by (simp add: zero_less_power_int)

lemma two_powi_Suc: "(2::rat) powi (e + 1) = 2 * 2 powi e"
  by (simp add: power_int_add_1')

lemma of_int_bitlen:
  assumes "0 < p"
  shows "(2::rat) powi (bitlen p) \<le> 2 * of_int p" and "of_int p < (2::rat) powi (bitlen p)"
proof -
  from bitlen_bounds [OF assms]
  have lo: "2 ^ nat (bitlen p - 1) \<le> p" and hi: "p < 2 ^ nat (bitlen p)" by auto
  have pos: "0 < bitlen p"
    using assms by (metis bitlen_eq_zero_iff bitlen_nonneg linorder_not_le order_le_less)
  have b: "(2::rat) powi (bitlen p) = 2 ^ nat (bitlen p)"
    using pos by (metis bitlen_nonneg int_nat_eq power_int_of_nat)
  have "(of_int p :: rat) < of_int (2 ^ nat (bitlen p))"
    using hi by (simp only: of_int_less_iff)
  then show "of_int p < (2::rat) powi (bitlen p)"
    by (simp add: b)
  have "nat (bitlen p) = Suc (nat (bitlen p - 1))"
    using pos by simp
  then have "(2::rat) ^ nat (bitlen p) = 2 * 2 ^ nat (bitlen p - 1)"
    by simp
  moreover have "(of_int (2 ^ nat (bitlen p - 1)) :: rat) \<le> of_int p"
    using lo by (simp only: of_int_le_iff)
  ultimately show "(2::rat) powi (bitlen p) \<le> 2 * of_int p"
    by (simp add: b)
qed

lemma expo_bounds:
  assumes "x \<noteq> 0"
  shows "2 powi (expo x) \<le> \<bar>x\<bar>" and "\<bar>x\<bar> < 2 powi (expo x + 1)"
proof -
  obtain p q where pq: "quotient_of \<bar>x\<bar> = (p, q)" by (cases "quotient_of \<bar>x\<bar>")
  have q: "0 < q" using pq by (rule quotient_of_denom_pos)
  have x: "\<bar>x\<bar> = of_int p / of_int q" using pq by (rule quotient_of_div)
  have "0 < \<bar>x\<bar>" using assms by simp
  with x q have p: "0 < p"
    by (simp add: zero_less_divide_iff)
  define a where "a = bitlen p - bitlen q"
  have qr: "(0::rat) < of_int q" using q by simp
  have up: "\<bar>x\<bar> < 2 powi (a + 1)"
  proof -
    have "of_int p * (2::rat) powi (bitlen q) < 2 powi (bitlen p) * (2 * of_int q)"
      using of_int_bitlen [OF p] of_int_bitlen [OF q] p q
      by (intro mult_less_le_imp_less) (auto simp: two_powi_pos)
    then have "of_int p / of_int q < 2 * ((2::rat) powi (bitlen p) / 2 powi (bitlen q))"
      using qr two_powi_pos [of "bitlen q"] by (simp add: field_simps)
    then show ?thesis
      by (simp add: x a_def two_powi_Suc power_int_diff)
  qed
  have lo: "2 powi (a - 1) \<le> \<bar>x\<bar>"
  proof -
    have "(2::rat) powi (bitlen p) * of_int q \<le> (2 * of_int p) * 2 powi (bitlen q)"
      using of_int_bitlen [OF p] of_int_bitlen [OF q] p q
      by (intro mult_mono) (auto simp: two_powi_pos less_imp_le)
    then have "(2::rat) powi (bitlen p) / 2 powi (bitlen q) \<le> 2 * (of_int p / of_int q)"
      using qr two_powi_pos [of "bitlen q"] by (simp add: field_simps)
    moreover have "(2::rat) powi (a - 1) = (2 powi (bitlen p) / 2 powi (bitlen q)) / 2"
      by (simp add: a_def power_int_diff)
    ultimately show ?thesis
      by (simp add: x)
  qed
  have e: "expo x = (if 2 powi a \<le> \<bar>x\<bar> then a else a - 1)"
    by (simp add: expo_def pq a_def Let_def)
  show "2 powi (expo x) \<le> \<bar>x\<bar>"
    using lo by (simp add: e)
  show "\<bar>x\<bar> < 2 powi (expo x + 1)"
    using up by (auto simp: e)
qed

lemma expo_unique:
  assumes "2 powi e \<le> \<bar>x\<bar>" "\<bar>x\<bar> < 2 powi (e + 1)"
  shows "expo x = e"
proof -
  have "0 < \<bar>x\<bar>" using assms(1) two_powi_pos [of e] by linarith
  then have "x \<noteq> 0" by simp
  note b = expo_bounds [OF this]
  have "\<not> expo x < e"
  proof
    assume "expo x < e"
    then have "(2::rat) powi (expo x + 1) \<le> 2 powi e"
      by (intro power_int_increasing) auto
    with b(2) assms(1) show False by linarith
  qed
  moreover have "\<not> e < expo x"
  proof
    assume "e < expo x"
    then have "(2::rat) powi (e + 1) \<le> 2 powi (expo x)"
      by (intro power_int_increasing) auto
    with b(1) assms(2) show False by linarith
  qed
  ultimately show ?thesis by simp
qed

lemma expo_uminus: "expo (- x) = expo x"
  by (simp add: expo_def)

lemma expo_mono:
  assumes "0 < x" "x \<le> y"
  shows "expo x \<le> expo y"
proof (rule ccontr)
  assume "\<not> expo x \<le> expo y"
  then have "(2::rat) powi (expo y + 1) \<le> 2 powi (expo x)"
    by (intro power_int_increasing) auto
  moreover have "\<bar>y\<bar> < 2 powi (expo y + 1)"
    using assms by (intro expo_bounds) auto
  moreover have "2 powi (expo x) \<le> \<bar>x\<bar>"
    using assms by (intro expo_bounds) auto
  ultimately show False using assms by linarith
qed


lemma ulp_pos: "0 < ulp x"
  by (simp add: ulp_def two_powi_pos)

lemma fl_ulp: "x \<noteq> 0 \<Longrightarrow> fl x = of_int (rne (x / ulp x)) * ulp x"
  by (simp add: fl_def)

lemma ulp_uminus: "ulp (- x) = ulp x"
  by (simp add: ulp_def expo_uminus)

lemma fl_uminus: "fl (- x) = - fl x"
  by (simp add: fl_def ulp_uminus rne_uminus)

lemma fl_0: "fl 0 = 0"
  by (simp add: fl_def)

lemma rne_nonneg: "0 \<le> x \<Longrightarrow> 0 \<le> rne x"
  using rne_mono [of 0 x] rne_of_int [of 0] by simp

lemma fl_nonneg: "0 \<le> x \<Longrightarrow> 0 \<le> fl x"
proof (cases "x = 0")
  case True
  then show ?thesis by (simp add: fl_0)
next
  case False
  assume "0 \<le> x"
  then have "0 \<le> x / ulp x" using ulp_pos [of x] by simp
  then have "0 \<le> rne (x / ulp x)" by (rule rne_nonneg)
  then show ?thesis using ulp_pos [of x] by (simp add: fl_ulp False)
qed

text \<open>The significand of a positive number lies between \<open>2 ^ 52\<close> and \<open>2 ^ 53\<close>.\<close>

lemma significand_upper:
  assumes "0 < x"
  shows "x / ulp x < 2 ^ 53"
proof -
  have "x < 2 powi (expo x + 1)"
    using expo_bounds(2) [of x] assms by simp
  also have "\<dots> \<le> 2 powi (max (expo x) (- 1022) + 1)"
    by (intro power_int_increasing) auto
  also have "\<dots> = 2 ^ 53 * ulp x"
  proof -
    have "(2::rat) powi (max (expo x) (- 1022) + 1) = 2 powi (53 + (max (expo x) (- 1022) - 52))"
      by (simp add: algebra_simps)
    also have "\<dots> = 2 powi 53 * 2 powi (max (expo x) (- 1022) - 52)"
      by (rule power_int_add) simp
    finally show ?thesis by (simp add: ulp_def)
  qed
  finally show ?thesis using ulp_pos [of x] by (simp add: field_simps)
qed

lemma significand_lower:
  assumes "0 < x" "- 1022 \<le> expo x"
  shows "2 ^ 52 \<le> x / ulp x"
proof -
  have u: "ulp x = 2 powi (expo x - 52)"
    using assms(2) by (simp add: ulp_def max_def)
  have "(2::rat) powi (expo x) = 2 powi (52 + (expo x - 52))"
    by simp
  also have "\<dots> = 2 powi 52 * 2 powi (expo x - 52)"
    by (rule power_int_add) simp
  finally have "2 ^ 52 * ulp x = 2 powi (expo x)"
    by (simp add: u)
  also have "\<dots> \<le> x"
    using expo_bounds(1) [of x] assms by simp
  finally show ?thesis using ulp_pos [of x] by (simp add: field_simps)
qed

lemma fl_upper:
  assumes "0 < x"
  shows "fl x \<le> 2 powi (max (expo x) (- 1022) + 1)"
proof -
  have "rne (x / ulp x) \<le> rne (of_int (2 ^ 53))"
    using significand_upper [OF assms] by (intro rne_mono) simp
  then have "rne (x / ulp x) \<le> 2 ^ 53"
    by (simp only: rne_of_int)
  then have "(of_int (rne (x / ulp x)) :: rat) \<le> of_int (2 ^ 53)"
    by (simp only: of_int_le_iff)
  then have "fl x \<le> 2 ^ 53 * ulp x"
    using assms ulp_pos [of x] by (simp add: fl_ulp)
  also have "\<dots> = 2 powi (max (expo x) (- 1022) + 1)"
  proof -
    have "(2::rat) powi (max (expo x) (- 1022) + 1) = 2 powi (53 + (max (expo x) (- 1022) - 52))"
      by (simp add: algebra_simps)
    also have "\<dots> = 2 powi 53 * 2 powi (max (expo x) (- 1022) - 52)"
      by (rule power_int_add) simp
    finally show ?thesis by (simp add: ulp_def)
  qed
  finally show ?thesis .
qed

lemma fl_lower:
  assumes "0 < x" "- 1022 \<le> expo x"
  shows "2 powi (expo x) \<le> fl x"
proof -
  have "rne (of_int (2 ^ 52)) \<le> rne (x / ulp x)"
    using significand_lower [OF assms] by (intro rne_mono) simp
  then have "2 ^ 52 \<le> rne (x / ulp x)"
    by (simp only: rne_of_int)
  then have "(of_int (2 ^ 52) :: rat) \<le> of_int (rne (x / ulp x))"
    by (simp only: of_int_le_iff)
  then have "2 ^ 52 * ulp x \<le> fl x"
    using assms ulp_pos [of x] by (simp add: fl_ulp)
  moreover have "2 ^ 52 * ulp x = 2 powi (expo x)"
  proof -
    have u: "ulp x = 2 powi (expo x - 52)"
      using assms(2) by (simp add: ulp_def max_def)
    have "(2::rat) powi (expo x) = 2 powi (52 + (expo x - 52))"
      by simp
    also have "\<dots> = 2 powi 52 * 2 powi (expo x - 52)"
      by (rule power_int_add) simp
    finally show ?thesis by (simp add: u)
  qed
  ultimately show ?thesis by simp
qed

lemma fl_mono_pos:
  assumes "0 < x" "x \<le> y"
  shows "fl x \<le> fl y"
proof -
  have y: "0 < y" using assms by simp
  have le: "max (expo x) (- 1022) \<le> max (expo y) (- 1022)"
    using expo_mono [OF assms] by simp
  show ?thesis
  proof (cases "max (expo x) (- 1022) = max (expo y) (- 1022)")
    case True
    then have u: "ulp x = ulp y" by (simp add: ulp_def)
    have "x / ulp y \<le> y / ulp y"
      using assms(2) ulp_pos [of y] by (simp add: divide_right_mono)
    then have "rne (x / ulp y) \<le> rne (y / ulp y)" by (rule rne_mono)
    then have "(of_int (rne (x / ulp y)) :: rat) \<le> of_int (rne (y / ulp y))"
      by (simp only: of_int_le_iff)
    then show ?thesis
      using assms y ulp_pos [of y] by (simp add: fl_ulp u)
  next
    case False
    with le have lt: "max (expo x) (- 1022) < max (expo y) (- 1022)" by linarith
    then have ey: "- 1022 \<le> expo y" "max (expo x) (- 1022) + 1 \<le> expo y"
      by (auto simp: max_def split: if_splits)
    have "fl x \<le> 2 powi (max (expo x) (- 1022) + 1)"
      using assms(1) by (rule fl_upper)
    also have "\<dots> \<le> 2 powi (expo y)"
      using ey(2) by (intro power_int_increasing) auto
    also have "\<dots> \<le> fl y"
      using y ey(1) by (rule fl_lower)
    finally show ?thesis .
  qed
qed

lemma fl_mono: "x \<le> y \<Longrightarrow> fl x \<le> fl y"
proof -
  assume xy: "x \<le> y"
  consider "0 < x" | "x \<le> 0" "0 \<le> y" | "y < 0" by linarith
  then show ?thesis
  proof cases
    case 1
    then show ?thesis using xy by (rule fl_mono_pos)
  next
    case 2
    have "fl x \<le> 0" using fl_nonneg [of "- x"] 2(1) by (simp add: fl_uminus)
    moreover have "0 \<le> fl y" using 2(2) by (rule fl_nonneg)
    ultimately show ?thesis by simp
  next
    case 3
    then have "fl (- y) \<le> fl (- x)"
      using xy by (intro fl_mono_pos) auto
    then show ?thesis by (simp add: fl_uminus)
  qed
qed

text \<open>
  A multiple \<open>k * 2 ^ (e - 52)\<close> of the spacing of its own binade, with \<open>\<bar>k\<bar>\<close> at most
  \<open>2 ^ 53\<close>, is a double. In particular every integer up to \<open>2 ^ 53\<close> is one.
\<close>

lemma fl_grid:
  assumes "x = of_int k * ulp x"
  shows "fl x = x"
proof (cases "x = 0")
  case True
  then show ?thesis by (simp add: fl_0)
next
  case False
  have "x / ulp x = of_int k"
    using assms ulp_pos [of x] by (metis less_numeral_extra(3) nonzero_eq_divide_eq)
  then show ?thesis
    using assms by (simp add: fl_ulp False rne_of_int)
qed

lemma fl_of_nat_pos:
  assumes "0 < n" "n \<le> 2 ^ 53"
  shows "fl (of_int n) = of_int n"
proof -
  let ?x = "of_int n :: rat"
  have x: "0 < ?x" using assms(1) by simp
  have x53: "?x \<le> 2 ^ 53"
    using assms(2) by (metis of_int_le_iff of_int_numeral of_int_power)
  have e0: "0 \<le> expo ?x"
  proof (rule ccontr)
    assume "\<not> 0 \<le> expo ?x"
    then have "(2::rat) powi (expo ?x + 1) \<le> 2 powi 0"
      by (intro power_int_increasing) auto
    moreover have "?x < 2 powi (expo ?x + 1)"
      using expo_bounds(2) [of ?x] x by simp
    moreover have "1 \<le> ?x" using assms(1) by simp
    ultimately show False by simp
  qed
  have e53: "expo ?x \<le> 53"
  proof (rule ccontr)
    assume "\<not> expo ?x \<le> 53"
    then have "(2::rat) powi 54 \<le> 2 powi (expo ?x)"
      by (intro power_int_increasing) auto
    moreover have "2 powi (expo ?x) \<le> ?x"
      using expo_bounds(1) [of ?x] x by simp
    ultimately show False using x53 by simp
  qed
  show ?thesis
  proof (cases "expo ?x \<le> 52")
    case True
    define m where "m = nat (52 - expo ?x)"
    have u: "ulp ?x = 2 powi (expo ?x - 52)"
      using e0 by (simp add: ulp_def max_def)
    have "(2::rat) powi (int m) * 2 powi (expo ?x - 52) = 2 powi (int m + (expo ?x - 52))"
      by (rule power_int_add [symmetric]) simp
    also have "\<dots> = 1" using True by (simp add: m_def)
    finally have one: "2 ^ m * ulp ?x = 1" by (simp only: u power_int_of_nat)
    have "of_int (n * 2 ^ m) * ulp ?x = ?x * (2 ^ m * ulp ?x)"
      by (simp only: of_int_mult of_int_power of_int_numeral mult.assoc)
    also have "\<dots> = ?x" by (simp only: one mult_1_right)
    finally have "?x = of_int (n * 2 ^ m) * ulp ?x" by (rule sym)
    then show ?thesis by (rule fl_grid)
  next
    case False
    with e53 have e: "expo ?x = 53" by simp
    have "(2::rat) powi 53 \<le> ?x"
      using expo_bounds(1) [of ?x] x e by simp
    with x53 have eq: "?x = 2 ^ 53" by simp
    have u: "ulp ?x = 2" by (simp add: ulp_def e)
    have "of_int (2 ^ 52) * ulp ?x = (2 ^ 53 :: rat)" by (simp only: u) simp
    then have "?x = of_int (2 ^ 52) * ulp ?x" by (simp only: eq)
    then show ?thesis by (rule fl_grid)
  qed
qed

lemma fl_of_int: "\<bar>n\<bar> \<le> 2 ^ 53 \<Longrightarrow> fl (of_int n) = of_int n"
proof -
  assume n: "\<bar>n\<bar> \<le> 2 ^ 53"
  consider "n = 0" | "0 < n" | "n < 0" by linarith
  then show ?thesis
  proof cases
    case 1
    then show ?thesis by (simp add: fl_0)
  next
    case 2
    with n show ?thesis by (intro fl_of_nat_pos) auto
  next
    case 3
    with n have "fl (of_int (- n)) = of_int (- n)" by (intro fl_of_nat_pos) auto
    then show ?thesis by (simp add: fl_uminus)
  qed
qed

section \<open>Which frame the tag reader reports (C4)\<close>

lemma last_nonEmptyTexts:
  assumes "nonEmptyTexts fid (id3Frames buf) \<noteq> []"
  shows "last (nonEmptyTexts fid (id3Frames buf)) \<noteq> []"
    and "trim (last (nonEmptyTexts fid (id3Frames buf))) = last (nonEmptyTexts fid (id3Frames buf))"
proof -
  have "last (nonEmptyTexts fid (id3Frames buf)) \<in> set (nonEmptyTexts fid (id3Frames buf))"
    using assms by simp
  then have m: "(fid, Some (last (nonEmptyTexts fid (id3Frames buf)))) \<in> set (id3Frames buf)"
    and n: "last (nonEmptyTexts fid (id3Frames buf)) \<noteq> []"
    by (auto dest: nonEmptyTexts_set)
  show "last (nonEmptyTexts fid (id3Frames buf)) \<noteq> []" by (rule n)
  show "trim (last (nonEmptyTexts fid (id3Frames buf))) = last (nonEmptyTexts fid (id3Frames buf))"
    using m by (rule id3Frames_trimmed)
qed

lemma readId3_tags:
  "fst (readId3 b)
     = \<lparr>id3Title = (if nonEmptyTexts (str ''TIT2'') (id3Frames b) = [] then None
                     else Some (last (nonEmptyTexts (str ''TIT2'') (id3Frames b)))),
        id3Artist = (if nonEmptyTexts (str ''TPE1'') (id3Frames b) = [] then None
                     else Some (last (nonEmptyTexts (str ''TPE1'') (id3Frames b))))\<rparr>"
proof -
  have "id3Title (fst (readId3 b))
      = (if nonEmptyTexts (str ''TIT2'') (id3Frames b) = [] then None
         else Some (last (nonEmptyTexts (str ''TIT2'') (id3Frames b))))"
    by (simp add: readId3_frames foldl_assign_title noTags_def)
  moreover have "id3Artist (fst (readId3 b))
      = (if nonEmptyTexts (str ''TPE1'') (id3Frames b) = [] then None
         else Some (last (nonEmptyTexts (str ''TPE1'') (id3Frames b))))"
    by (simp add: readId3_frames foldl_assign_artist noTags_def)
  ultimately show ?thesis
    by (cases "fst (readId3 b)") simp
qed

lemmas id3_eval = readId3_def id3Frames_def hasMagic_def getUint8_def getUint32_def ebind_def
  synchsafeAt_def synchsafe_def walk.simps walkFrames.simps frameAt_def frameText_def
  textDecode_def codeUnits_def str_def trim_def isWhiteSpace_def assign_def noTags_def Let_def

text \<open>
  Claim C4 says that with several non-empty \<open>TIT2\<close> (or \<open>TPE1\<close>) frames the reader reports
  the first non-empty decoded value. It does not: each non-empty value is assigned over
  the one before. For the tag \<open>twoTitleFrames\<close> the walk decodes \<open>"A"\<close> and then \<open>"B"\<close>,
  and the title reported is \<open>"B"\<close>.
\<close>

theorem id3_first_frame_counterexample:
  "nonEmptyTexts (str ''TIT2'') (id3Frames twoTitleFrames) = [str ''A'', str ''B'']
   \<and> readId3 twoTitleFrames = (\<lparr>id3Title = Some (str ''B''), id3Artist = None\<rparr>, None)
   \<and> getTrackMetadata \<lparr>file_name = str ''x.mp3'', file_bytes = twoTitleFrames\<rparr>
       = Inr \<lparr>title = Some (str ''B''), artist = Some (str ''Unknown'')\<rparr>"
proof -
  have frames: "nonEmptyTexts (str ''TIT2'') (id3Frames twoTitleFrames) = [str ''A'', str ''B'']"
    by (simp add: twoTitleFrames_def id3_eval)
  have tags: "readId3 twoTitleFrames = (\<lparr>id3Title = Some (str ''B''), id3Artist = None\<rparr>, None)"
    by (simp add: twoTitleFrames_def id3_eval)
  have whole: "take (128 * 1024) twoTitleFrames = twoTitleFrames"
    by (simp add: twoTitleFrames_def)
  have "getTrackMetadata \<lparr>file_name = str ''x.mp3'', file_bytes = twoTitleFrames\<rparr>
       = Inr (mergeMetadata \<lparr>id3Title = Some (str ''B''), id3Artist = None\<rparr>
                (parseMetadataFromFilename (str ''x.mp3'')))"
    unfolding getTrackMetadata_def by (simp only: File.select_convs whole tags prod.case)
  moreover have "nonBlank (Some (str ''B''))"
    by (simp add: nonBlank_def str_def trim_def isWhiteSpace_def)
  ultimately have "getTrackMetadata \<lparr>file_name = str ''x.mp3'', file_bytes = twoTitleFrames\<rparr>
       = Inr \<lparr>title = Some (str ''B''),
               artist = Some (artistOrUnknown (artist (parseMetadataFromFilename (str ''x.mp3''))))\<rparr>"
    by (simp add: mergeMetadata_def nonBlank_def)
  moreover have "artist (parseMetadataFromFilename (str ''x.mp3'')) = None"
    by (simp add: parseMetadataFromFilename_def separator_def str_def extTail_def)
  ultimately have "getTrackMetadata \<lparr>file_name = str ''x.mp3'', file_bytes = twoTitleFrames\<rparr>
       = Inr \<lparr>title = Some (str ''B''), artist = Some (str ''Unknown'')\<rparr>"
    by (simp add: artistOrUnknown_def)
  with frames tags show ?thesis by blast
qed

text \<open>
  Claim C4, amended. After the frame walk each field holds the last non-empty decoded
  value of its frames, and none when there is no such value; an empty decoded value never
  replaces a recorded one. \<open>getTrackMetadata\<close> returns that value, and the value derived
  from the file name when there is none.
\<close>

theorem id3_last_nonempty_frame_wins:
  "fst (readId3 buf)
     = \<lparr>id3Title = (if nonEmptyTexts (str ''TIT2'') (id3Frames buf) = [] then None
                     else Some (last (nonEmptyTexts (str ''TIT2'') (id3Frames buf)))),
        id3Artist = (if nonEmptyTexts (str ''TPE1'') (id3Frames buf) = [] then None
                     else Some (last (nonEmptyTexts (str ''TPE1'') (id3Frames buf))))\<rparr>
   \<and> getTrackMetadata file
     = Inr \<lparr>title =
              (if nonEmptyTexts (str ''TIT2'') (id3Frames (take (128 * 1024) (file_bytes file))) = []
               then title (parseMetadataFromFilename (file_name file))
               else Some (last (nonEmptyTexts (str ''TIT2'')
                       (id3Frames (take (128 * 1024) (file_bytes file)))))),
            artist =
              (if nonEmptyTexts (str ''TPE1'') (id3Frames (take (128 * 1024) (file_bytes file))) = []
               then Some (artistOrUnknown (artist (parseMetadataFromFilename (file_name file))))
               else Some (last (nonEmptyTexts (str ''TPE1'')
                       (id3Frames (take (128 * 1024) (file_bytes file))))))\<rparr>"
proof
  show "fst (readId3 buf)
     = \<lparr>id3Title = (if nonEmptyTexts (str ''TIT2'') (id3Frames buf) = [] then None
                     else Some (last (nonEmptyTexts (str ''TIT2'') (id3Frames buf)))),
        id3Artist = (if nonEmptyTexts (str ''TPE1'') (id3Frames buf) = [] then None
                     else Some (last (nonEmptyTexts (str ''TPE1'') (id3Frames buf))))\<rparr>"
    by (rule readId3_tags)
  define b where "b = take (128 * 1024) (file_bytes file)"
  obtain st thrown where r: "readId3 b = (st, thrown)"
    by (cases "readId3 b")
  with readId3_tags [of b] have st: "st
     = \<lparr>id3Title = (if nonEmptyTexts (str ''TIT2'') (id3Frames b) = [] then None
                     else Some (last (nonEmptyTexts (str ''TIT2'') (id3Frames b)))),
        id3Artist = (if nonEmptyTexts (str ''TPE1'') (id3Frames b) = [] then None
                     else Some (last (nonEmptyTexts (str ''TPE1'') (id3Frames b))))\<rparr>"
    by simp
  have "getTrackMetadata file
      = Inr (mergeMetadata st (parseMetadataFromFilename (file_name file)))"
    using r by (simp add: getTrackMetadata_def b_def)
  also have "\<dots> = Inr \<lparr>title =
              (if nonEmptyTexts (str ''TIT2'') (id3Frames b) = []
               then title (parseMetadataFromFilename (file_name file))
               else Some (last (nonEmptyTexts (str ''TIT2'') (id3Frames b)))),
            artist =
              (if nonEmptyTexts (str ''TPE1'') (id3Frames b) = []
               then Some (artistOrUnknown (artist (parseMetadataFromFilename (file_name file))))
               else Some (last (nonEmptyTexts (str ''TPE1'') (id3Frames b))))\<rparr>"
    using last_nonEmptyTexts [of "str ''TIT2''" b] last_nonEmptyTexts [of "str ''TPE1''" b]
    by (simp add: st mergeMetadata_def nonBlank_def)
  finally show "getTrackMetadata file
     = Inr \<lparr>title =
              (if nonEmptyTexts (str ''TIT2'') (id3Frames (take (128 * 1024) (file_bytes file))) = []
               then title (parseMetadataFromFilename (file_name file))
               else Some (last (nonEmptyTexts (str ''TIT2'')
                       (id3Frames (take (128 * 1024) (file_bytes file)))))),
            artist =
              (if nonEmptyTexts (str ''TPE1'') (id3Frames (take (128 * 1024) (file_bytes file))) = []
               then Some (artistOrUnknown (artist (parseMetadataFromFilename (file_name file))))
               else Some (last (nonEmptyTexts (str ''TPE1'')
                       (id3Frames (take (128 * 1024) (file_bytes file))))))\<rparr>"
    by (simp add: b_def)
qed

section \<open>The metadata resolver (C5)\<close>

lemma trim_nonempty: "trim t \<noteq> [] \<Longrightarrow> t \<noteq> []"
  by (auto simp: trim_Nil)

text \<open>
  Claim C5. For every pair of tag values and every file name, the resolver returns the
  tag's title when it is non-empty after trimming and the title derived from the file
  name otherwise, which is always defined; it returns the tag's artist when it is
  non-empty after trimming, otherwise the artist derived from the file name, and
  \<open>"Unknown"\<close> when that one is absent or empty. \<open>getTrackMetadata\<close> is this resolver
  applied to what the tag reader found and to the file name.
\<close>

theorem metadata_precedence:
  "title (mergeMetadata st fm)
     = (case id3Title st of
          Some t \<Rightarrow> if trim t \<noteq> [] then Some t else title fm
        | None \<Rightarrow> title fm)
   \<and> artist (mergeMetadata st fm)
     = (case id3Artist st of
          Some a \<Rightarrow> if trim a \<noteq> [] then Some a else Some (artistOrUnknown (artist fm))
        | None \<Rightarrow> Some (artistOrUnknown (artist fm)))
   \<and> artistOrUnknown (artist fm)
     = (case artist fm of
          Some f \<Rightarrow> if f \<noteq> [] then f else str ''Unknown''
        | None \<Rightarrow> str ''Unknown'')
   \<and> title (parseMetadataFromFilename filename) \<noteq> None
   \<and> getTrackMetadata file
     = Inr (mergeMetadata (fst (readId3 (take (128 * 1024) (file_bytes file))))
              (parseMetadataFromFilename (file_name file)))"
proof (intro conjI)
  show "title (mergeMetadata st fm)
     = (case id3Title st of
          Some t \<Rightarrow> if trim t \<noteq> [] then Some t else title fm
        | None \<Rightarrow> title fm)"
    by (auto simp: mergeMetadata_def nonBlank_def split: option.splits dest: trim_nonempty)
  show "artist (mergeMetadata st fm)
     = (case id3Artist st of
          Some a \<Rightarrow> if trim a \<noteq> [] then Some a else Some (artistOrUnknown (artist fm))
        | None \<Rightarrow> Some (artistOrUnknown (artist fm)))"
    by (auto simp: mergeMetadata_def nonBlank_def split: option.splits dest: trim_nonempty)
  show "artistOrUnknown (artist fm)
     = (case artist fm of
          Some f \<Rightarrow> if f \<noteq> [] then f else str ''Unknown''
        | None \<Rightarrow> str ''Unknown'')"
    by (simp add: artistOrUnknown_def)
  show "title (parseMetadataFromFilename filename) \<noteq> None"
    by (simp add: parseMetadataFromFilename_def Let_def split: list.splits)
  show "getTrackMetadata file
     = Inr (mergeMetadata (fst (readId3 (take (128 * 1024) (file_bytes file))))
              (parseMetadataFromFilename (file_name file)))"
    by (simp add: getTrackMetadata_def split: prod.splits)
qed

section \<open>The file name heuristic (C6)\<close>

lemma separator_not_Nil: "separator \<noteq> []"
  by (simp add: separator_def str_def)

lemma includes_split_ge2:
  assumes "sep \<noteq> []" "includes_js sep s"
  shows "\<exists>p0 p1 ps. split_js sep s = p0 # p1 # ps"
proof -
  from first_occurrence [OF assms(2,1)] obtain a r
    where "s = a @ sep @ r" "\<not> includes_js sep (a @ butlast sep)" by auto
  then have "split_js sep s = a # split_from sep [] r"
    using split_from_first [OF assms(1), of a "[]" r] by (simp add: split_js_def)
  moreover obtain q qs where "split_from sep [] r = q # qs"
    using split_from_not_Nil [of sep "[]" r] by (cases "split_from sep [] r") auto
  ultimately show ?thesis by simp
qed

text \<open>
  Claim C6. For every file name, \<open>parseMetadataFromFilename\<close> strips the final extension
  (a last dot followed by at least one code unit, none of them a slash); when the rest
  contains \<open>" - "\<close>, the artist is the trimmed text before the first occurrence and the
  title is the trimmed rest, which is the remaining segments joined again with \<open>" - "\<close>;
  otherwise the title is the whole rest and there is no artist. The function has no
  failure result.
\<close>

theorem parseMetadataFromFilename_contract:
  "(\<forall>p e. filename = p @ 46 # e \<and> extTail e \<longrightarrow> stripExt filename = p)
   \<and> ((\<nexists>p e. filename = p @ 46 # e \<and> extTail e) \<longrightarrow> stripExt filename = filename)
   \<and> (\<forall>a r. stripExt filename = a @ separator @ r
          \<and> \<not> includes_js separator (a @ butlast separator) \<longrightarrow>
        split_js separator (stripExt filename) = a # split_js separator r
        \<and> join_js separator (split_js separator r) = r
        \<and> parseMetadataFromFilename filename = \<lparr>title = Some (trim r), artist = Some (trim a)\<rparr>)
   \<and> (includes_js separator (stripExt filename) \<longrightarrow>
        (\<exists>a r. stripExt filename = a @ separator @ r
          \<and> \<not> includes_js separator (a @ butlast separator)))
   \<and> (\<not> includes_js separator (stripExt filename) \<longrightarrow>
        parseMetadataFromFilename filename = \<lparr>title = Some (stripExt filename), artist = None\<rparr>)"
proof (intro conjI allI impI)
  fix p e
  assume "filename = p @ 46 # e \<and> extTail e"
  then show "stripExt filename = p"
    by (simp add: stripExt_ext)
next
  assume "\<nexists>p e. filename = p @ 46 # e \<and> extTail e"
  then show "stripExt filename = filename"
    by (rule stripExt_none)
next
  fix a r
  assume h: "stripExt filename = a @ separator @ r
    \<and> \<not> includes_js separator (a @ butlast separator)"
  then show cut: "split_js separator (stripExt filename) = a # split_js separator r"
    using split_from_first [OF separator_not_Nil, of a "[]" r] by (simp add: split_js_def)
  show joined: "join_js separator (split_js separator r) = r"
    by (simp add: split_js_def join_split_from)
  obtain q qs where q: "split_js separator r = q # qs"
    using split_from_not_Nil [of separator "[]" r]
    by (cases "split_js separator r") (auto simp: split_js_def)
  have "includes_js separator (stripExt filename)"
    using h by (auto simp: includes_js_iff)
  then show "parseMetadataFromFilename filename = \<lparr>title = Some (trim r), artist = Some (trim a)\<rparr>"
    using cut joined q by (simp add: parseMetadataFromFilename_def)
next
  assume "includes_js separator (stripExt filename)"
  then show "\<exists>a r. stripExt filename = a @ separator @ r
      \<and> \<not> includes_js separator (a @ butlast separator)"
    by (rule first_occurrence) (rule separator_not_Nil)
next
  assume "\<not> includes_js separator (stripExt filename)"
  then show "parseMetadataFromFilename filename
      = \<lparr>title = Some (stripExt filename), artist = None\<rparr>"
    by (simp add: parseMetadataFromFilename_def)
qed

theorem parseMetadataFromFilename_witness:
  "stripExt (str ''Artist - Title.mp3'') = str ''Artist - Title''
   \<and> parseMetadataFromFilename (str ''Artist - Title.mp3'')
       = \<lparr>title = Some (str ''Title''), artist = Some (str ''Artist'')\<rparr>
   \<and> stripExt (str ''SingleWord.mp3'') = str ''SingleWord''
   \<and> parseMetadataFromFilename (str ''SingleWord.mp3'')
       = \<lparr>title = Some (str ''SingleWord''), artist = None\<rparr>"
proof -
  note T1 = parseMetadataFromFilename_contract [of "str ''Artist - Title.mp3''"]
  note T2 = parseMetadataFromFilename_contract [of "str ''SingleWord.mp3''"]
  have e1: "str ''Artist - Title.mp3'' = str ''Artist - Title'' @ 46 # str ''mp3''
      \<and> extTail (str ''mp3'')"
    by (simp add: str_def extTail_def)
  with T1 have s1: "stripExt (str ''Artist - Title.mp3'') = str ''Artist - Title''"
    by blast
  have "str ''Artist - Title'' = str ''Artist'' @ separator @ str ''Title''
      \<and> \<not> includes_js separator (str ''Artist'' @ butlast separator)"
    by (simp add: str_def separator_def)
  with T1 s1 have "parseMetadataFromFilename (str ''Artist - Title.mp3'')
      = \<lparr>title = Some (trim (str ''Title'')), artist = Some (trim (str ''Artist''))\<rparr>"
    by metis
  then have m1: "parseMetadataFromFilename (str ''Artist - Title.mp3'')
       = \<lparr>title = Some (str ''Title''), artist = Some (str ''Artist'')\<rparr>"
    by (simp add: trim_def str_def isWhiteSpace_def)
  have e2: "str ''SingleWord.mp3'' = str ''SingleWord'' @ 46 # str ''mp3''
      \<and> extTail (str ''mp3'')"
    by (simp add: str_def extTail_def)
  with T2 have s2: "stripExt (str ''SingleWord.mp3'') = str ''SingleWord''"
    by blast
  have "\<not> includes_js separator (str ''SingleWord'')"
    by (simp add: str_def separator_def)
  with T2 s2 have m2: "parseMetadataFromFilename (str ''SingleWord.mp3'')
       = \<lparr>title = Some (str ''SingleWord''), artist = None\<rparr>"
    by metis
  from s1 m1 s2 m2 show ?thesis by blast
qed

section \<open>The tag reader never raises (C7)\<close>

lemma readId3_no_magic: "hasMagic buf \<noteq> Inr True \<Longrightarrow> fst (readId3 buf) = noTags"
  by (auto simp: readId3_def split: sum.splits bool.splits)

lemma readId3_short: "length buf < 10 \<Longrightarrow> fst (readId3 buf) = noTags"
  by (auto simp: readId3_def synchsafeAt_def getUint8_def ebind_def
      split: sum.splits bool.splits prod.splits if_splits)

text \<open>
  Claim C7. For every file, \<open>getTrackMetadata\<close> returns a result and no exception: what
  is thrown inside the \<open>try\<close> block stays there. When the first 128 KiB do not start with
  \<open>ID3\<close> (the check itself may throw on a buffer of fewer than three bytes), or when the
  file is shorter than the ten bytes of the tag header, no tag value is recorded and the
  result is the metadata derived from the file name: its title, and its artist or
  \<open>"Unknown"\<close>.
\<close>

theorem tag_reader_never_raises:
  "(\<exists>m. getTrackMetadata file = Inr m)
   \<and> (hasMagic (take (128 * 1024) (file_bytes file)) \<noteq> Inr True
        \<or> length (file_bytes file) < 10 \<longrightarrow>
      fst (readId3 (take (128 * 1024) (file_bytes file))) = noTags
      \<and> getTrackMetadata file
          = Inr \<lparr>title = title (parseMetadataFromFilename (file_name file)),
                  artist = Some (artistOrUnknown (artist (parseMetadataFromFilename (file_name file))))\<rparr>)"
proof (intro conjI impI)
  show "\<exists>m. getTrackMetadata file = Inr m"
    by (simp add: getTrackMetadata_def split: prod.splits)
next
  assume "hasMagic (take (128 * 1024) (file_bytes file)) \<noteq> Inr True
        \<or> length (file_bytes file) < 10"
  then show none: "fst (readId3 (take (128 * 1024) (file_bytes file))) = noTags"
    by (auto simp: readId3_no_magic readId3_short)
  then show "getTrackMetadata file
          = Inr \<lparr>title = title (parseMetadataFromFilename (file_name file)),
                  artist = Some (artistOrUnknown (artist (parseMetadataFromFilename (file_name file))))\<rparr>"
    by (auto simp: getTrackMetadata_def mergeMetadata_def noTags_def nonBlank_def
        split: prod.splits)
qed

theorem tag_reader_never_raises_witness:
  "readId3 [] = (noTags, Some RangeError)
   \<and> getTrackMetadata \<lparr>file_name = str ''Artist - Title.mp3'', file_bytes = []\<rparr>
       = Inr \<lparr>title = Some (str ''Title''), artist = Some (str ''Artist'')\<rparr>
   \<and> readId3 [0x52, 0x49, 0x46, 0x46] = (noTags, None)
   \<and> getTrackMetadata \<lparr>file_name = str ''SingleWord.mp3'', file_bytes = [0x52, 0x49, 0x46, 0x46]\<rparr>
       = Inr \<lparr>title = Some (str ''SingleWord''), artist = Some (str ''Unknown'')\<rparr>"
proof -
  have f1: "parseMetadataFromFilename (str ''Artist - Title.mp3'')
      = \<lparr>title = Some (str ''Title''), artist = Some (str ''Artist'')\<rparr>"
    by (simp add: parseMetadataFromFilename_def separator_def str_def split_js_def extTail_def
        trim_def isWhiteSpace_def)
  have f2: "parseMetadataFromFilename (str ''SingleWord.mp3'')
      = \<lparr>title = Some (str ''SingleWord''), artist = None\<rparr>"
    by (simp add: parseMetadataFromFilename_def separator_def str_def split_js_def extTail_def
        trim_def isWhiteSpace_def)
  have ne: "str ''Artist'' \<noteq> []"
    by (simp add: str_def)
  have r1: "readId3 [] = (noTags, Some RangeError)"
    by (simp add: readId3_def hasMagic_def getUint8_def ebind_def)
  have r2: "readId3 [0x52, 0x49, 0x46, 0x46] = (noTags, None)"
    by (simp add: readId3_def hasMagic_def getUint8_def ebind_def)
  have h1: "length (file_bytes \<lparr>file_name = str ''Artist - Title.mp3'', file_bytes = []\<rparr>) < 10"
    by simp
  have h2: "hasMagic (take (128 * 1024)
      (file_bytes \<lparr>file_name = str ''SingleWord.mp3'', file_bytes = [0x52, 0x49, 0x46, 0x46]\<rparr>))
      \<noteq> Inr True"
    by (simp add: hasMagic_def getUint8_def ebind_def)
  have m1: "getTrackMetadata \<lparr>file_name = str ''Artist - Title.mp3'', file_bytes = []\<rparr>
       = Inr \<lparr>title = Some (str ''Title''), artist = Some (str ''Artist'')\<rparr>"
    using tag_reader_never_raises [of "\<lparr>file_name = str ''Artist - Title.mp3'', file_bytes = []\<rparr>"] h1
    by (simp add: f1 artistOrUnknown_def ne)
  have m2: "getTrackMetadata \<lparr>file_name = str ''SingleWord.mp3'', file_bytes = [0x52, 0x49, 0x46, 0x46]\<rparr>
       = Inr \<lparr>title = Some (str ''SingleWord''), artist = Some (str ''Unknown'')\<rparr>"
    using tag_reader_never_raises
      [of "\<lparr>file_name = str ''SingleWord.mp3'', file_bytes = [0x52, 0x49, 0x46, 0x46]\<rparr>"] h2
    by (simp add: f2 artistOrUnknown_def)
  from r1 m1 r2 m2 show ?thesis by blast
qed

section \<open>Isolation of failures in a batch (C8)\<close>

lemma track_id_mark [simp]:
  "track_id (markStarted t) = track_id t" "track_id (markGenerating t) = track_id t"
  "track_id (markCompleted r t) = track_id t" "track_id (markError e t) = track_id t"
  by (simp_all add: markStarted_def markGenerating_def markCompleted_def markError_def)

lemma processTrack_id:
  "u \<in> set (processTrack isolate generate t) \<Longrightarrow> track_id (u x) = track_id x"
  by (auto simp: processTrack_def generationUpdates_def split: if_splits sum.splits)

lemma fold_updates_id:
  "set us \<subseteq> set (processTrack isolate generate t) \<Longrightarrow> track_id (fold (\<lambda>u x. u x) us x) = track_id x"
  by (induction us arbitrary: x) (auto simp: processTrack_id)

lemma take_updates_id:
  "track_id (fold (\<lambda>u x. u x) (take k (processTrack isolate generate t)) x) = track_id x"
  by (rule fold_updates_id) (rule set_take_subset)

lemma processTrack_not_Nil: "0 < length (processTrack isolate generate t)"
  by (simp add: processTrack_def)

lemma applyTo_nth:
  "j < length ts \<Longrightarrow> applyTo i f ts ! j = (if track_id (ts ! j) = i then f (ts ! j) else ts ! j)"
  by (simp add: applyTo_def)

lemma length_applyTo [simp]: "length (applyTo i f ts) = length ts"
  by (simp add: applyTo_def)

lemma fold_take_Suc:
  "k < length us \<Longrightarrow> fold (\<lambda>u x. u x) (take (Suc k) us) x = (us ! k) (fold (\<lambda>u x. u x) (take k us) x)"
  by (simp add: take_Suc_conv_app_nth)

lemma distinct_ids_eq:
  assumes "distinct (map track_id ts)" "a \<in> set ts" "b \<in> set ts" "track_id a = track_id b"
  shows "a = b"
  using assms by (meson distinct_map inj_onD)

lemma poolInv_start:
  "distinct (map track_id ts) \<Longrightarrow> poolInv isolate generate ts (startPool ts)"
  by (auto simp: poolInv_def startPool_def Let_def distinct_map)

lemma processed_id: "track_id (processed isolate generate t) = track_id t"
  unfolding processed_def by (rule fold_updates_id) (rule subset_refl)

lemma poolInv_ids:
  assumes "poolInv isolate generate ts s" "j < length ts"
  shows "track_id (pool_tracks s ! j) = track_id (ts ! j)"
proof -
  let ?t = "ts ! j"
  from assms have c:
    "\<not> isPending ?t \<longrightarrow> pool_tracks s ! j = ?t"
    "?t \<in> set (pool_queue s) \<longrightarrow> pool_tracks s ! j = ?t"
    "\<forall>i < length (pool_workers s). \<forall>k. pool_workers s ! i = Some (?t, k) \<longrightarrow>
        pool_tracks s ! j = fold (\<lambda>u x. u x) (take k (processTrack isolate generate ?t)) ?t"
    "isPending ?t \<and> ?t \<notin> set (pool_queue s)
        \<and> (\<forall>i < length (pool_workers s). \<forall>k. pool_workers s ! i \<noteq> Some (?t, k)) \<longrightarrow>
        pool_tracks s ! j = processed isolate generate ?t"
    unfolding poolInv_def by blast+
  consider "\<not> isPending ?t" | "?t \<in> set (pool_queue s)"
    | i k where "i < length (pool_workers s)" "pool_workers s ! i = Some (?t, k)"
    | "isPending ?t" "?t \<notin> set (pool_queue s)"
      "\<forall>i < length (pool_workers s). \<forall>k. pool_workers s ! i \<noteq> Some (?t, k)"
    by blast
  then show ?thesis
  proof cases
    case 1
    with c(1) show ?thesis by simp
  next
    case 2
    with c(2) show ?thesis by simp
  next
    case 3
    with c(3) show ?thesis by (simp add: take_updates_id)
  next
    case 4
    with c(4) show ?thesis by (simp add: processed_id)
  qed
qed


text \<open>The parts of the invariant, one by one.\<close>

lemma poolInv_workerD:
  assumes "poolInv isolate generate ts s" "i < length (pool_workers s)"
    "pool_workers s ! i = Some (t, k)"
  shows "t \<in> set ts" "isPending t" "t \<notin> set (pool_queue s)" "1 \<le> k"
    "k \<le> length (processTrack isolate generate t)"
    "\<And>i' k'. i' < length (pool_workers s) \<Longrightarrow> pool_workers s ! i' = Some (t, k') \<Longrightarrow> i' = i"
  using assms unfolding poolInv_def by blast+

lemma poolInv_queueD:
  assumes "poolInv isolate generate ts s" "t \<in> set (pool_queue s)"
  shows "t \<in> set ts" "isPending t"
  using assms unfolding poolInv_def by blast+

lemma poolInv_trackD:
  assumes "poolInv isolate generate ts s" "j < length ts"
  shows "\<not> isPending (ts ! j) \<Longrightarrow> pool_tracks s ! j = ts ! j"
    "ts ! j \<in> set (pool_queue s) \<Longrightarrow> pool_tracks s ! j = ts ! j"
    "\<And>i k. i < length (pool_workers s) \<Longrightarrow> pool_workers s ! i = Some (ts ! j, k) \<Longrightarrow>
        pool_tracks s ! j = fold (\<lambda>u x. u x) (take k (processTrack isolate generate (ts ! j))) (ts ! j)"
    "isPending (ts ! j) \<Longrightarrow> ts ! j \<notin> set (pool_queue s) \<Longrightarrow>
        (\<And>i k. i < length (pool_workers s) \<Longrightarrow> pool_workers s ! i \<noteq> Some (ts ! j, k)) \<Longrightarrow>
        pool_tracks s ! j = processed isolate generate (ts ! j)"
  using assms unfolding poolInv_def by blast+

lemma poolInvI:
  assumes "length (pool_tracks s) = length ts" "distinct (pool_queue s)"
    "\<And>t. t \<in> set (pool_queue s) \<Longrightarrow> t \<in> set ts \<and> isPending t"
    "\<And>i t k. i < length (pool_workers s) \<Longrightarrow> pool_workers s ! i = Some (t, k) \<Longrightarrow>
        t \<in> set ts \<and> isPending t \<and> t \<notin> set (pool_queue s)
        \<and> 1 \<le> k \<and> k \<le> length (processTrack isolate generate t)
        \<and> (\<forall>i' < length (pool_workers s). \<forall>k'. pool_workers s ! i' = Some (t, k') \<longrightarrow> i' = i)"
    "\<And>j. j < length ts \<Longrightarrow> \<not> isPending (ts ! j) \<Longrightarrow> pool_tracks s ! j = ts ! j"
    "\<And>j. j < length ts \<Longrightarrow> ts ! j \<in> set (pool_queue s) \<Longrightarrow> pool_tracks s ! j = ts ! j"
    "\<And>j i k. j < length ts \<Longrightarrow> i < length (pool_workers s) \<Longrightarrow>
        pool_workers s ! i = Some (ts ! j, k) \<Longrightarrow>
        pool_tracks s ! j = fold (\<lambda>u x. u x) (take k (processTrack isolate generate (ts ! j))) (ts ! j)"
    "\<And>j. j < length ts \<Longrightarrow> isPending (ts ! j) \<Longrightarrow> ts ! j \<notin> set (pool_queue s) \<Longrightarrow>
        \<forall>i < length (pool_workers s). \<forall>k. pool_workers s ! i \<noteq> Some (ts ! j, k) \<Longrightarrow>
        pool_tracks s ! j = processed isolate generate (ts ! j)"
  shows "poolInv isolate generate ts s"
  unfolding poolInv_def using assms by blast

lemma applyTo_other:
  assumes "poolInv isolate generate ts s" "distinct (map track_id ts)" "t \<in> set ts"
    "j < length ts" "ts ! j \<noteq> t"
  shows "applyTo (track_id t) f (pool_tracks s) ! j = pool_tracks s ! j"
proof -
  have "track_id (ts ! j) \<noteq> track_id t"
    using distinct_ids_eq [OF assms(2) _ assms(3)] assms(4,5) by (metis nth_mem)
  moreover have "length (pool_tracks s) = length ts"
    using assms(1) by (simp add: poolInv_def)
  ultimately show ?thesis
    using poolInv_ids [OF assms(1,4)] assms(4) by (simp add: applyTo_nth)
qed

lemma applyTo_same:
  assumes "poolInv isolate generate ts s" "j < length ts"
  shows "applyTo (track_id (ts ! j)) f (pool_tracks s) ! j = f (pool_tracks s ! j)"
proof -
  have "length (pool_tracks s) = length ts"
    using assms(1) by (simp add: poolInv_def)
  then show ?thesis
    using poolInv_ids [OF assms] assms(2) by (simp add: applyTo_nth)
qed

lemma poolInv_step:
  assumes d: "distinct (map track_id ts)"
    and inv: "poolInv isolate generate ts s"
    and step: "poolStep isolate generate s s'"
  shows "poolInv isolate generate ts s'"
  using step
proof cases
  case (shift i t q)
  let ?U = "processTrack isolate generate"
  have len: "length (pool_tracks s) = length ts" and dq: "distinct (pool_queue s)"
    using inv by (simp_all add: poolInv_def)
  have tq: "t \<in> set (pool_queue s)" "t \<notin> set q" "distinct q"
    using shift(4) dq by auto
  have tts: "t \<in> set ts" "isPending t"
    using poolInv_queueD [OF inv tq(1)] by auto
  have free: "pool_workers s ! i' \<noteq> Some (t, k')" if "i' < length (pool_workers s)" for i' k'
    using poolInv_workerD(3) [OF inv that] tq(1) by blast
  have w': "pool_workers s' ! i' = (if i' = i then Some (t, 1) else pool_workers s ! i')"
    if "i' < length (pool_workers s)" for i'
    using that shift(2) by (simp add: shift(1) nth_list_update)
  have lw: "length (pool_workers s') = length (pool_workers s)"
    by (simp add: shift(1))
  have q': "pool_queue s' = q" by (simp add: shift(1))
  have T': "pool_tracks s' = applyTo (track_id t) (?U t ! 0) (pool_tracks s)"
    by (simp add: shift(1))
  show ?thesis
  proof (rule poolInvI)
    show "length (pool_tracks s') = length ts" by (simp add: T' len)
    show "distinct (pool_queue s')" by (simp add: q' tq)
  next
    fix x assume "x \<in> set (pool_queue s')"
    then have "x \<in> set (pool_queue s)" by (simp add: q' shift(4))
    then show "x \<in> set ts \<and> isPending x" using poolInv_queueD [OF inv] by blast
  next
    fix i2 t2 k2
    assume i2: "i2 < length (pool_workers s')" and h: "pool_workers s' ! i2 = Some (t2, k2)"
    show "t2 \<in> set ts \<and> isPending t2 \<and> t2 \<notin> set (pool_queue s')
        \<and> 1 \<le> k2 \<and> k2 \<le> length (?U t2)
        \<and> (\<forall>i' < length (pool_workers s'). \<forall>k'. pool_workers s' ! i' = Some (t2, k') \<longrightarrow> i' = i2)"
    proof (cases "i2 = i")
      case True
      with h i2 have e: "t2 = t" "k2 = 1" by (simp_all add: w' lw)
      have "\<forall>i' < length (pool_workers s'). \<forall>k'. pool_workers s' ! i' = Some (t, k') \<longrightarrow> i' = i"
        using free by (auto simp: w' lw split: if_splits)
      then show ?thesis
        using e tts tq True processTrack_not_Nil [of isolate generate t] by (simp add: q' Suc_leI)
    next
      case False
      with h i2 have old: "pool_workers s ! i2 = Some (t2, k2)" "i2 < length (pool_workers s)"
        by (simp_all add: w' lw)
      note D = poolInv_workerD [OF inv old(2,1)]
      have "t2 \<noteq> t" using D(3) tq(1) by blast
      then have "\<forall>i' < length (pool_workers s'). \<forall>k'. pool_workers s' ! i' = Some (t2, k') \<longrightarrow> i' = i2"
        using D(6) by (auto simp: w' lw split: if_splits)
      moreover have "t2 \<notin> set (pool_queue s')" using D(3) by (simp add: q' shift(4))
      ultimately show ?thesis using D(1,2,4,5) by simp
    qed
  next
    fix j assume j: "j < length ts" and np: "\<not> isPending (ts ! j)"
    then have "ts ! j \<noteq> t" using tts(2) by blast
    then show "pool_tracks s' ! j = ts ! j"
      using applyTo_other [OF inv d tts(1) j] poolInv_trackD(1) [OF inv j np] by (simp add: T')
  next
    fix j assume j: "j < length ts" and inq: "ts ! j \<in> set (pool_queue s')"
    then have ne: "ts ! j \<noteq> t" and "ts ! j \<in> set (pool_queue s)"
      using tq by (auto simp: q' shift(4))
    then show "pool_tracks s' ! j = ts ! j"
      using applyTo_other [OF inv d tts(1) j] poolInv_trackD(2) [OF inv j] by (simp add: T')
  next
    fix j i2 k
    assume j: "j < length ts" and i2: "i2 < length (pool_workers s')"
      and h: "pool_workers s' ! i2 = Some (ts ! j, k)"
    show "pool_tracks s' ! j = fold (\<lambda>u x. u x) (take k (?U (ts ! j))) (ts ! j)"
    proof (cases "ts ! j = t")
      case True
      have "i2 = i"
        using h i2 free [of i2 k] True by (auto simp: w' lw split: if_splits)
      with h i2 have k: "k = 1" by (simp add: w' lw)
      have "pool_tracks s ! j = t"
        using poolInv_trackD(2) [OF inv j] tq(1) True by simp
      then have "pool_tracks s' ! j = (?U t ! 0) t"
        using applyTo_same [OF inv j, of "?U t ! 0"] True by (simp add: T')
      moreover have "take 1 (?U t) = [?U t ! 0]"
        using processTrack_not_Nil [of isolate generate t]
        by (cases "?U t") simp_all
      ultimately show ?thesis using True k by simp
    next
      case False
      with h i2 have old: "pool_workers s ! i2 = Some (ts ! j, k)" "i2 < length (pool_workers s)"
        by (auto simp: w' lw split: if_splits)
      show ?thesis
        using applyTo_other [OF inv d tts(1) j False] poolInv_trackD(3) [OF inv j old(2,1)]
        by (simp add: T')
    qed
  next
    fix j assume j: "j < length ts" and p: "isPending (ts ! j)"
      and nq: "ts ! j \<notin> set (pool_queue s')"
      and nw: "\<forall>i < length (pool_workers s'). \<forall>k. pool_workers s' ! i \<noteq> Some (ts ! j, k)"
    have ne: "ts ! j \<noteq> t"
      using nw shift(2) by (auto simp: w' lw)
    then have "ts ! j \<notin> set (pool_queue s)" using nq by (simp add: q' shift(4))
    moreover have "pool_workers s ! i' \<noteq> Some (ts ! j, k)" if "i' < length (pool_workers s)" for i' k
      using nw that shift(3) by (cases "i' = i") (auto simp: w' lw)
    ultimately have "pool_tracks s ! j = processed isolate generate (ts ! j)"
      using poolInv_trackD(4) [OF inv j p] by blast
    then show "pool_tracks s' ! j = processed isolate generate (ts ! j)"
      using applyTo_other [OF inv d tts(1) j ne] by (simp add: T')
  qed
next
  case (update i t k)
  let ?U = "processTrack isolate generate"
  have len: "length (pool_tracks s) = length ts"
    using inv by (simp add: poolInv_def)
  note D = poolInv_workerD [OF inv update(2,3)]
  have w': "pool_workers s' ! i' = (if i' = i then Some (t, k + 1) else pool_workers s ! i')"
    if "i' < length (pool_workers s)" for i'
    using that update(2) by (simp add: update(1) nth_list_update)
  have lw: "length (pool_workers s') = length (pool_workers s)"
    by (simp add: update(1))
  have q': "pool_queue s' = pool_queue s" by (simp add: update(1))
  have T': "pool_tracks s' = applyTo (track_id t) (?U t ! k) (pool_tracks s)"
    by (simp add: update(1))
  show ?thesis
  proof (rule poolInvI)
    show "length (pool_tracks s') = length ts" by (simp add: T' len)
    show "distinct (pool_queue s')" using inv by (simp add: q' poolInv_def)
  next
    fix x assume "x \<in> set (pool_queue s')"
    then show "x \<in> set ts \<and> isPending x" using poolInv_queueD [OF inv] by (simp add: q')
  next
    fix i2 t2 k2
    assume i2: "i2 < length (pool_workers s')" and h: "pool_workers s' ! i2 = Some (t2, k2)"
    show "t2 \<in> set ts \<and> isPending t2 \<and> t2 \<notin> set (pool_queue s')
        \<and> 1 \<le> k2 \<and> k2 \<le> length (?U t2)
        \<and> (\<forall>i' < length (pool_workers s'). \<forall>k'. pool_workers s' ! i' = Some (t2, k') \<longrightarrow> i' = i2)"
    proof (cases "i2 = i")
      case True
      with h i2 have e: "t2 = t" "k2 = k + 1" by (simp_all add: w' lw)
      have "\<forall>i' < length (pool_workers s'). \<forall>k'. pool_workers s' ! i' = Some (t, k') \<longrightarrow> i' = i"
        using D(6) by (auto simp: w' lw split: if_splits)
      then show ?thesis
        using e D(1,2,3) update(4) True by (simp add: q')
    next
      case False
      with h i2 have old: "pool_workers s ! i2 = Some (t2, k2)" "i2 < length (pool_workers s)"
        by (simp_all add: w' lw)
      note E = poolInv_workerD [OF inv old(2,1)]
      have "t2 \<noteq> t"
      proof
        assume "t2 = t"
        with E(6) [OF update(2)] update(3) have "i = i2" by simp
        with False show False by simp
      qed
      then have "\<forall>i' < length (pool_workers s'). \<forall>k'. pool_workers s' ! i' = Some (t2, k') \<longrightarrow> i' = i2"
        using E(6) by (auto simp: w' lw split: if_splits)
      then show ?thesis using E(1,2,3,4,5) by (simp add: q')
    qed
  next
    fix j assume j: "j < length ts" and np: "\<not> isPending (ts ! j)"
    then have "ts ! j \<noteq> t" using D(2) by blast
    then show "pool_tracks s' ! j = ts ! j"
      using applyTo_other [OF inv d D(1) j] poolInv_trackD(1) [OF inv j np] by (simp add: T')
  next
    fix j assume j: "j < length ts" and inq: "ts ! j \<in> set (pool_queue s')"
    then have ne: "ts ! j \<noteq> t" and "ts ! j \<in> set (pool_queue s)"
      using D(3) by (auto simp: q')
    then show "pool_tracks s' ! j = ts ! j"
      using applyTo_other [OF inv d D(1) j] poolInv_trackD(2) [OF inv j] by (simp add: T')
  next
    fix j i2 k2
    assume j: "j < length ts" and i2: "i2 < length (pool_workers s')"
      and h: "pool_workers s' ! i2 = Some (ts ! j, k2)"
    show "pool_tracks s' ! j = fold (\<lambda>u x. u x) (take k2 (?U (ts ! j))) (ts ! j)"
    proof (cases "ts ! j = t")
      case True
      have "i2 = i"
        using h i2 D(6) [of i2] True by (auto simp: w' lw split: if_splits)
      with h i2 have k2: "k2 = Suc k" by (simp add: w' lw)
      have "pool_tracks s ! j = fold (\<lambda>u x. u x) (take k (?U t)) t"
        using poolInv_trackD(3) [OF inv j update(2)] update(3) True by simp
      then have "pool_tracks s' ! j = (?U t ! k) (fold (\<lambda>u x. u x) (take k (?U t)) t)"
        using applyTo_same [OF inv j, of "?U t ! k"] True by (simp add: T')
      then show ?thesis
        using True k2 fold_take_Suc [OF update(4)] by simp
    next
      case False
      with h i2 have old: "pool_workers s ! i2 = Some (ts ! j, k2)" "i2 < length (pool_workers s)"
        by (auto simp: w' lw split: if_splits)
      show ?thesis
        using applyTo_other [OF inv d D(1) j False] poolInv_trackD(3) [OF inv j old(2,1)]
        by (simp add: T')
    qed
  next
    fix j assume j: "j < length ts" and p: "isPending (ts ! j)"
      and nq: "ts ! j \<notin> set (pool_queue s')"
      and nw: "\<forall>i < length (pool_workers s'). \<forall>k. pool_workers s' ! i \<noteq> Some (ts ! j, k)"
    have ne: "ts ! j \<noteq> t"
      using nw update(2) by (auto simp: w' lw)
    have "pool_workers s ! i' \<noteq> Some (ts ! j, k')" if "i' < length (pool_workers s)" for i' k'
      using nw that update(3) ne by (cases "i' = i") (auto simp: w' lw)
    then have "pool_tracks s ! j = processed isolate generate (ts ! j)"
      using poolInv_trackD(4) [OF inv j p] nq by (simp add: q')
    then show "pool_tracks s' ! j = processed isolate generate (ts ! j)"
      using applyTo_other [OF inv d D(1) j ne] by (simp add: T')
  qed
next
  case (finish i t k)
  let ?U = "processTrack isolate generate"
  note D = poolInv_workerD [OF inv finish(2,3)]
  have w': "pool_workers s' ! i' = (if i' = i then None else pool_workers s ! i')"
    if "i' < length (pool_workers s)" for i'
    using that finish(2) by (simp add: finish(1) nth_list_update)
  have lw: "length (pool_workers s') = length (pool_workers s)"
    by (simp add: finish(1))
  have q': "pool_queue s' = pool_queue s" by (simp add: finish(1))
  have T': "pool_tracks s' = pool_tracks s" by (simp add: finish(1))
  show ?thesis
  proof (rule poolInvI)
    show "length (pool_tracks s') = length ts" using inv by (simp add: T' poolInv_def)
    show "distinct (pool_queue s')" using inv by (simp add: q' poolInv_def)
  next
    fix x assume "x \<in> set (pool_queue s')"
    then show "x \<in> set ts \<and> isPending x" using poolInv_queueD [OF inv] by (simp add: q')
  next
    fix i2 t2 k2
    assume i2: "i2 < length (pool_workers s')" and h: "pool_workers s' ! i2 = Some (t2, k2)"
    then have old: "pool_workers s ! i2 = Some (t2, k2)" "i2 < length (pool_workers s)"
      by (auto simp: w' lw split: if_splits)
    note E = poolInv_workerD [OF inv old(2,1)]
    have "\<forall>i' < length (pool_workers s'). \<forall>k'. pool_workers s' ! i' = Some (t2, k') \<longrightarrow> i' = i2"
      using E(6) by (auto simp: w' lw split: if_splits)
    then show "t2 \<in> set ts \<and> isPending t2 \<and> t2 \<notin> set (pool_queue s')
        \<and> 1 \<le> k2 \<and> k2 \<le> length (?U t2)
        \<and> (\<forall>i' < length (pool_workers s'). \<forall>k'. pool_workers s' ! i' = Some (t2, k') \<longrightarrow> i' = i2)"
      using E(1,2,3,4,5) by (simp add: q')
  next
    fix j assume "j < length ts" "\<not> isPending (ts ! j)"
    then show "pool_tracks s' ! j = ts ! j"
      using poolInv_trackD(1) [OF inv] by (simp add: T')
  next
    fix j assume "j < length ts" "ts ! j \<in> set (pool_queue s')"
    then show "pool_tracks s' ! j = ts ! j"
      using poolInv_trackD(2) [OF inv] by (simp add: T' q')
  next
    fix j i2 k2
    assume j: "j < length ts" and i2: "i2 < length (pool_workers s')"
      and h: "pool_workers s' ! i2 = Some (ts ! j, k2)"
    then have old: "pool_workers s ! i2 = Some (ts ! j, k2)" "i2 < length (pool_workers s)"
      by (auto simp: w' lw split: if_splits)
    show "pool_tracks s' ! j = fold (\<lambda>u x. u x) (take k2 (?U (ts ! j))) (ts ! j)"
      using poolInv_trackD(3) [OF inv j old(2,1)] by (simp add: T')
  next
    fix j assume j: "j < length ts" and p: "isPending (ts ! j)"
      and nq: "ts ! j \<notin> set (pool_queue s')"
      and nw: "\<forall>i < length (pool_workers s'). \<forall>k. pool_workers s' ! i \<noteq> Some (ts ! j, k)"
    show "pool_tracks s' ! j = processed isolate generate (ts ! j)"
    proof (cases "ts ! j = t")
      case True
      have "pool_tracks s ! j = fold (\<lambda>u x. u x) (take k (?U t)) t"
        using poolInv_trackD(3) [OF inv j finish(2)] finish(3) True by simp
      then show ?thesis
        using True finish(4) by (simp add: T' processed_def)
    next
      case False
      have "pool_workers s ! i' \<noteq> Some (ts ! j, k')" if "i' < length (pool_workers s)" for i' k'
        using nw that finish(3) False by (cases "i' = i") (auto simp: w' lw)
      then show ?thesis
        using poolInv_trackD(4) [OF inv j p] nq by (simp add: q' T')
    qed
  qed
qed


lemma poolInv_reachable:
  assumes "distinct (map track_id ts)" "(poolStep isolate generate)\<^sup>*\<^sup>* (startPool ts) s"
  shows "poolInv isolate generate ts s"
  using assms(2)
proof (induction rule: rtranclp_induct)
  case base
  show ?case using assms(1) by (rule poolInv_start)
next
  case (step s s')
  show ?case using assms(1) step.IH step.hyps(2) by (rule poolInv_step)
qed

lemma poolInv_done:
  assumes "poolInv isolate generate ts s" "poolDone s" "j < length ts"
  shows "pool_tracks s ! j
    = (if isPending (ts ! j) then processed isolate generate (ts ! j) else ts ! j)"
proof (cases "isPending (ts ! j)")
  case False
  then show ?thesis using poolInv_trackD(1) [OF assms(1,3)] by simp
next
  case True
  have "pool_queue s = []" and "\<And>i. i < length (pool_workers s) \<Longrightarrow> pool_workers s ! i = None"
    using assms(2) by (simp_all add: poolDone_def list_all_length)
  then show ?thesis
    using poolInv_trackD(4) [OF assms(1,3) True] True by simp
qed

text \<open>A run of the pool exists: one worker alone can empty the queue.\<close>

lemma run_track:
  assumes "0 < length (pool_workers s)" "pool_workers s ! 0 = Some (t, k)"
    "k \<le> length (processTrack isolate generate t)"
  shows "\<exists>s'. (poolStep isolate generate)\<^sup>*\<^sup>* s s' \<and> pool_queue s' = pool_queue s
    \<and> pool_workers s' = (pool_workers s)[0 := None]"
  using assms
proof (induction "length (processTrack isolate generate t) - k" arbitrary: s k)
  case 0
  then have k: "k = length (processTrack isolate generate t)" by simp
  let ?s' = "\<lparr>pool_tracks = pool_tracks s, pool_queue = pool_queue s,
    pool_workers = (pool_workers s)[0 := None]\<rparr>"
  have "poolStep isolate generate s ?s'"
    using "0.prems"(1,2) k by (rule poolStep.finish)
  then have "(poolStep isolate generate)\<^sup>*\<^sup>* s ?s'" by (rule r_into_rtranclp)
  then show ?case by (intro exI [of _ ?s']) simp
next
  case (Suc n)
  then have k: "k < length (processTrack isolate generate t)" by simp
  let ?s1 = "\<lparr>pool_tracks = applyTo (track_id t) (processTrack isolate generate t ! k) (pool_tracks s),
    pool_queue = pool_queue s, pool_workers = (pool_workers s)[0 := Some (t, k + 1)]\<rparr>"
  have st: "poolStep isolate generate s ?s1"
    using Suc.prems(1,2) k by (rule poolStep.update)
  have "\<exists>s'. (poolStep isolate generate)\<^sup>*\<^sup>* ?s1 s' \<and> pool_queue s' = pool_queue ?s1
    \<and> pool_workers s' = (pool_workers ?s1)[0 := None]"
    using Suc.hyps(2) Suc.prems(1) k by (intro Suc.hyps(1)) auto
  then obtain s' where "(poolStep isolate generate)\<^sup>*\<^sup>* ?s1 s'" "pool_queue s' = pool_queue s"
    "pool_workers s' = (pool_workers s)[0 := None]"
    by auto
  with st show ?case
    by (meson converse_rtranclp_into_rtranclp)
qed

lemma run_queue:
  assumes "0 < length (pool_workers s)" "list_all (\<lambda>w. w = None) (pool_workers s)"
  shows "\<exists>s'. (poolStep isolate generate)\<^sup>*\<^sup>* s s' \<and> poolDone s'"
  using assms
proof (induction "pool_queue s" arbitrary: s)
  case Nil
  then have "poolDone s" by (simp add: poolDone_def)
  then show ?case by blast
next
  case (Cons t q)
  let ?s1 = "\<lparr>pool_tracks = applyTo (track_id t) (processTrack isolate generate t ! 0) (pool_tracks s),
    pool_queue = q, pool_workers = (pool_workers s)[0 := Some (t, 1)]\<rparr>"
  have w0: "pool_workers s ! 0 = None"
    using Cons.prems by (simp add: list_all_length)
  have st: "poolStep isolate generate s ?s1"
    using Cons.prems(1) w0 Cons.hyps(2) [symmetric] by (rule poolStep.shift)
  have "\<exists>s'. (poolStep isolate generate)\<^sup>*\<^sup>* ?s1 s' \<and> pool_queue s' = pool_queue ?s1
    \<and> pool_workers s' = (pool_workers ?s1)[0 := None]"
    using Cons.prems(1) processTrack_not_Nil [of isolate generate t]
    by (intro run_track [where t = t and k = 1]) (simp_all add: Suc_leI)
  then obtain s2 where s2: "(poolStep isolate generate)\<^sup>*\<^sup>* ?s1 s2" "pool_queue s2 = q"
    "pool_workers s2 = (pool_workers s)[0 := None]"
    by auto
  have same: "(pool_workers s)[0 := None] = pool_workers s"
    using w0 Cons.prems(1) by (metis list_update_id)
  have "\<exists>s'. (poolStep isolate generate)\<^sup>*\<^sup>* s2 s' \<and> poolDone s'"
    using s2(2,3) same Cons.prems by (intro Cons.hyps(1)) simp_all
  then obtain s' where "(poolStep isolate generate)\<^sup>*\<^sup>* s2 s'" "poolDone s'" by auto
  with st s2(1) show ?case
    by (meson converse_rtranclp_into_rtranclp rtranclp_trans)
qed

lemma handleGenerateAll_returns: "\<exists>ts'. handleGenerateAll isolate generate ts ts'"
proof (cases "filter isPending ts = []")
  case True
  then have "poolDone (startPool ts)"
    by (simp add: poolDone_def startPool_def Let_def)
  then show ?thesis
    unfolding handleGenerateAll_def by blast
next
  case False
  then have "0 < length (pool_workers (startPool ts))"
    by (simp add: startPool_def Let_def CONCURRENCY_LIMIT_def)
  moreover have "list_all (\<lambda>w. w = None) (pool_workers (startPool ts))"
    by (simp add: startPool_def Let_def list_all_length)
  ultimately obtain s' where "(poolStep isolate generate)\<^sup>*\<^sup>* (startPool ts) s'" "poolDone s'"
    using run_queue by blast
  then show ?thesis
    unfolding handleGenerateAll_def by blast
qed

lemma processed_cases:
  "processed isolate generate t =
     (if useIsolation t
      then (case isolate (track_file t) of
              Inl e \<Rightarrow> t\<lparr>status := ERROR, error := Some (messageOf e)\<rparr>
            | Inr b \<Rightarrow>
                (case generate b (str ''audio/wav'') (originalLyrics t) of
                   Inl e \<Rightarrow> t\<lparr>status := ERROR, error := Some (messageOf e)\<rparr>
                 | Inr r \<Rightarrow> t\<lparr>status := COMPLETED, lrcContent := Some r, error := None\<rparr>))
      else (case generate (base64 t) (mimeType t) (originalLyrics t) of
              Inl e \<Rightarrow> t\<lparr>status := ERROR, error := Some (messageOf e)\<rparr>
            | Inr r \<Rightarrow> t\<lparr>status := COMPLETED, lrcContent := Some r, error := None\<rparr>))"
  by (simp add: processed_def processTrack_def generationUpdates_def markStarted_def
      markGenerating_def markError_def markCompleted_def split: sum.splits)

lemma isPending_iff:
  "isPending t \<longleftrightarrow> \<not> (status t = COMPLETED \<or> (\<exists>c. lrcContent t = Some c \<and> trim c \<noteq> []))"
  by (auto simp: isPending_def trim_def split: option.splits)

text \<open>
  Claim C8. A batch always comes to an end. When the tracks have distinct identifiers,
  as \<open>generateId\<close> provides, every track that is \<open>COMPLETED\<close> or has lyric content that is not
  empty after trimming is the same after the batch as before, and every other track ends
  as \<open>processTrack\<close> alone leaves it, whatever the workers and the other tracks did in
  between: with status \<open>ERROR\<close> and the message of the exception when its isolation or its
  generation step throws, and \<open>COMPLETED\<close> with the generated text otherwise. So a failure
  changes the failing track only.
\<close>

theorem batch_isolation:
  "(\<exists>ts'. handleGenerateAll isolate generate ts ts')
   \<and> (distinct (map track_id ts) \<and> handleGenerateAll isolate generate ts ts' \<longrightarrow>
        length ts' = length ts
        \<and> (\<forall>j < length ts.
              ts' ! j = (if isPending (ts ! j) then processed isolate generate (ts ! j) else ts ! j)))
   \<and> (isPending t \<longleftrightarrow>
        \<not> (status t = COMPLETED \<or> (\<exists>c. lrcContent t = Some c \<and> trim c \<noteq> [])))
   \<and> processed isolate generate t =
       (if useIsolation t
        then (case isolate (track_file t) of
                Inl e \<Rightarrow> t\<lparr>status := ERROR, error := Some (messageOf e)\<rparr>
              | Inr b \<Rightarrow>
                  (case generate b (str ''audio/wav'') (originalLyrics t) of
                     Inl e \<Rightarrow> t\<lparr>status := ERROR, error := Some (messageOf e)\<rparr>
                   | Inr r \<Rightarrow> t\<lparr>status := COMPLETED, lrcContent := Some r, error := None\<rparr>))
        else (case generate (base64 t) (mimeType t) (originalLyrics t) of
                Inl e \<Rightarrow> t\<lparr>status := ERROR, error := Some (messageOf e)\<rparr>
              | Inr r \<Rightarrow> t\<lparr>status := COMPLETED, lrcContent := Some r, error := None\<rparr>))"
proof (intro conjI impI)
  show "\<exists>ts'. handleGenerateAll isolate generate ts ts'"
    by (rule handleGenerateAll_returns)
next
  assume h: "distinct (map track_id ts) \<and> handleGenerateAll isolate generate ts ts'"
  then obtain s where s: "(poolStep isolate generate)\<^sup>*\<^sup>* (startPool ts) s" "poolDone s"
    "pool_tracks s = ts'"
    unfolding handleGenerateAll_def by blast
  have inv: "poolInv isolate generate ts s"
    using h s(1) by (intro poolInv_reachable) auto
  then show "length ts' = length ts"
    using s(3) by (simp add: poolInv_def)
  show "\<forall>j < length ts.
      ts' ! j = (if isPending (ts ! j) then processed isolate generate (ts ! j) else ts ! j)"
    using poolInv_done [OF inv s(2)] s(3) by simp
next
  show "isPending t \<longleftrightarrow>
        \<not> (status t = COMPLETED \<or> (\<exists>c. lrcContent t = Some c \<and> trim c \<noteq> []))"
    by (rule isPending_iff)
next
  show "processed isolate generate t =
       (if useIsolation t
        then (case isolate (track_file t) of
                Inl e \<Rightarrow> t\<lparr>status := ERROR, error := Some (messageOf e)\<rparr>
              | Inr b \<Rightarrow>
                  (case generate b (str ''audio/wav'') (originalLyrics t) of
                     Inl e \<Rightarrow> t\<lparr>status := ERROR, error := Some (messageOf e)\<rparr>
                   | Inr r \<Rightarrow> t\<lparr>status := COMPLETED, lrcContent := Some r, error := None\<rparr>))
        else (case generate (base64 t) (mimeType t) (originalLyrics t) of
                Inl e \<Rightarrow> t\<lparr>status := ERROR, error := Some (messageOf e)\<rparr>
              | Inr r \<Rightarrow> t\<lparr>status := COMPLETED, lrcContent := Some r, error := None\<rparr>))"
    by (rule processed_cases)
qed


theorem batch_isolation_witness:
  "handleGenerateAll (\<lambda>f. Inl (newError ''no audio'')) (\<lambda>b m l. Inl (newError ''boom''))
     [(demoTrack ''1'' ''a.mp3'')\<lparr>status := COMPLETED, lrcContent := Some (str ''[00:01.00] la'')\<rparr>,
      demoTrack ''2'' ''b.mp3'']
     [(demoTrack ''1'' ''a.mp3'')\<lparr>status := COMPLETED, lrcContent := Some (str ''[00:01.00] la'')\<rparr>,
      (demoTrack ''2'' ''b.mp3'')\<lparr>status := ERROR, error := Some (str ''boom'')\<rparr>]"
proof -
  let ?iso = "\<lambda>f::File. Inl (newError ''no audio'') :: JsError + jsstring"
  let ?gen = "\<lambda>(b::jsstring) (m::jsstring) (l::jsstring). Inl (newError ''boom'') :: JsError + jsstring"
  let ?a = "(demoTrack ''1'' ''a.mp3'')\<lparr>status := COMPLETED, lrcContent := Some (str ''[00:01.00] la'')\<rparr>"
  let ?b = "demoTrack ''2'' ''b.mp3''"
  have "\<exists>ts'. handleGenerateAll ?iso ?gen [?a, ?b] ts'"
    using batch_isolation [of ?iso ?gen "[?a, ?b]"] by blast
  then obtain ts' where run: "handleGenerateAll ?iso ?gen [?a, ?b] ts'" ..
  have d: "distinct (map track_id [?a, ?b])"
    by (simp add: demoTrack_def str_def)
  have pa: "\<not> isPending ?a" and pb: "isPending ?b"
    by (simp_all add: isPending_def demoTrack_def)
  have msg: "messageOf (newError ''boom'') = str ''boom''"
    by (simp add: messageOf_def newError_def str_def)
  have res: "length ts' = length [?a, ?b]
      \<and> (\<forall>j < length [?a, ?b].
            ts' ! j = (if isPending ([?a, ?b] ! j) then processed ?iso ?gen ([?a, ?b] ! j)
                       else [?a, ?b] ! j))"
    using batch_isolation [of ?iso ?gen "[?a, ?b]" ts' ?b] d run by blast
  have pr: "processed ?iso ?gen ?b = ?b\<lparr>status := ERROR, error := Some (str ''boom'')\<rparr>"
    using batch_isolation [of ?iso ?gen "[?a, ?b]" ts' ?b] msg
    by (simp add: demoTrack_def)
  from res have l: "length ts' = 2" by simp
  from res have "ts' ! 0 = ?a" using pa by simp
  moreover from res have "ts' ! 1 = processed ?iso ?gen ?b"
    using pb by (auto simp: nth_Cons')
  ultimately have "ts' = [?a, ?b\<lparr>status := ERROR, error := Some (str ''boom'')\<rparr>]"
    using l pr by (intro nth_equalityI) (auto simp: nth_Cons' less_Suc_eq numeral_2_eq_2)
  with run show ?thesis by simp
qed

section \<open>The retry policy of the transcription call (C9)\<close>

lemma attemptLoop_skip:
  assumes "a \<le> k" "k \<le> MAX_RETRIES"
    and "\<forall>j. a \<le> j \<and> j < k \<longrightarrow> (\<exists>e. tryOnce (call j) = Inl e \<and> \<not> isTerminal e)"
  shows "\<exists>le'. attemptLoop call random a le ws
      = attemptLoop call random k le' (ws @ map (\<lambda>j. delay j (random j)) [a..<k])"
  using assms
proof (induction "k - a" arbitrary: a le ws)
  case 0
  then have "a = k" by simp
  then show ?case by auto
next
  case (Suc d)
  then have ak: "a < k" by simp
  with Suc.prems obtain e where e: "tryOnce (call a) = Inl e" "\<not> isTerminal e"
    by (metis order_refl)
  have step: "attemptLoop call random a le ws
      = attemptLoop call random (a + 1) (Some e) (ws @ [delay a (random a)])"
    using e ak Suc.prems(2) by (subst attemptLoop.simps) simp
  have "\<exists>le'. attemptLoop call random (a + 1) (Some e) (ws @ [delay a (random a)])
      = attemptLoop call random k le'
          ((ws @ [delay a (random a)]) @ map (\<lambda>j. delay j (random j)) [a + 1..<k])"
    using Suc.hyps(2) ak Suc.prems(2,3) by (intro Suc.hyps(1)) auto
  moreover have "[a..<k] = a # [a + 1..<k]"
    using ak by (simp add: upt_conv_Cons)
  ultimately show ?case
    by (simp add: step)
qed


lemma js_mul_base: "a \<le> MAX_RETRIES \<Longrightarrow> js_mul BASE_DELAY (2 ^ a) = 2000 * 2 ^ a"
proof -
  assume "a \<le> MAX_RETRIES"
  then have "(2::int) ^ a \<le> 2 ^ 3"
    by (intro power_increasing) (auto simp: MAX_RETRIES_def)
  then have "\<bar>2000 * 2 ^ a :: int\<bar> \<le> 2 ^ 53" by simp
  then have "fl (of_int (2000 * 2 ^ a)) = of_int (2000 * 2 ^ a)" by (rule fl_of_int)
  then show ?thesis by (simp add: js_mul_def BASE_DELAY_def)
qed

lemma js_mul_random:
  assumes "0 \<le> r" "r < 1"
  shows "0 \<le> js_mul r 1000" and "js_mul r 1000 \<le> 1000"
proof -
  show "0 \<le> js_mul r 1000"
    using assms(1) by (simp add: js_mul_def fl_nonneg)
  have "fl (r * 1000) \<le> fl (of_int 1000)"
    using assms(2) by (intro fl_mono) simp
  also have "\<dots> = of_int 1000" by (rule fl_of_int) simp
  finally show "js_mul r 1000 \<le> 1000" by (simp add: js_mul_def)
qed

lemma delay_bounds:
  assumes "0 \<le> r" "r < 1" "a \<le> MAX_RETRIES"
  shows "2000 * 2 ^ a \<le> delay a r" and "delay a r \<le> 2000 * 2 ^ a + 1000"
proof -
  have "(2::int) ^ a \<le> 2 ^ 3"
    using assms(3) by (intro power_increasing) (auto simp: MAX_RETRIES_def)
  then have "\<bar>2000 * 2 ^ a + 1000 :: int\<bar> \<le> 2 ^ 53"
    by simp
  then have "fl (of_int (2000 * 2 ^ a + 1000)) = of_int (2000 * 2 ^ a + 1000)"
    by (rule fl_of_int)
  then have hi: "fl (2000 * 2 ^ a + 1000) = 2000 * 2 ^ a + 1000"
    by simp
  have lo: "fl (2000 * 2 ^ a) = 2000 * 2 ^ a"
    using js_mul_base [OF assms(3)] by (simp add: js_mul_def BASE_DELAY_def)
  let ?y = "js_mul r 1000"
  have d: "delay a r = fl (2000 * 2 ^ a + ?y)"
    by (simp add: delay_def js_add_def js_mul_base [OF assms(3)])
  have "fl (2000 * 2 ^ a) \<le> fl (2000 * 2 ^ a + ?y)"
    using js_mul_random(1) [OF assms(1,2)] by (intro fl_mono) simp
  then show "2000 * 2 ^ a \<le> delay a r"
    by (simp only: d lo)
  have "fl (2000 * 2 ^ a + ?y) \<le> fl (2000 * 2 ^ a + 1000)"
    using js_mul_random(2) [OF assms(1,2)] by (intro fl_mono) simp
  then show "delay a r \<le> 2000 * 2 ^ a + 1000"
    by (simp only: d hi)
qed

lemma truthy_iff:
  "truthy v \<longleftrightarrow>
     v \<notin> {JsUndefined, JsNull, JsBool False, JsNum 0, JsNaN, JsBigInt 0, JsStr []}"
  by (cases v) (auto simp: truthy_def)

lemma isTerminal_fields:
  "isTerminal err \<longleftrightarrow>
     err_status err \<in> {JsNum 400, JsNum 401, JsNum 403, JsNum 404}
     \<or> err_status err \<in> {JsUndefined, JsNull, JsBool False, JsNum 0, JsNaN, JsBigInt 0, JsStr []}
       \<and> err_response_status err \<in> {JsNum 400, JsNum 401, JsNum 403, JsNum 404}"
proof (cases "truthy (err_status err)")
  case True
  then have "err_status err \<notin> {JsUndefined, JsNull, JsBool False, JsNum 0, JsNaN, JsBigInt 0, JsStr []}"
    using truthy_iff by blast
  then show ?thesis using True by (auto simp: isTerminal_def errorStatus_def)
next
  case False
  then have f: "err_status err \<in> {JsUndefined, JsNull, JsBool False, JsNum 0, JsNaN, JsBigInt 0, JsStr []}"
    using truthy_iff by blast
  then have "err_status err \<notin> {JsNum 400, JsNum 401, JsNum 403, JsNum 404}" by auto
  then show ?thesis using False f by (auto simp: isTerminal_def errorStatus_def)
qed

text \<open>
  Claim C9. The status of a thrown error is \<open>error.status\<close>, and \<open>error.response.status\<close> when
  \<open>error.status\<close> is absent or otherwise falsy. An error is terminal exactly when that status
  is the number 400, 401, 403 or 404; in particular one whose \<open>error.status\<close> is 429, or any
  other truthy value, number or not, is not terminal, whatever its response carries. When
  the attempts before \<open>k\<close> failed with errors that are not terminal and attempt \<open>k\<close> fails with
  a terminal one, exactly \<open>k + 1\<close> calls are made and that error is thrown: a terminal error
  triggers no further attempt. Every other failure is followed by a wait and another
  attempt, until attempt \<open>MAX_RETRIES\<close> has failed too: then \<open>MAX_RETRIES + 1\<close> calls were
  made and the last error is thrown. The wait after attempt \<open>a\<close> lies between \<open>2000 * 2 ^ a\<close>
  and \<open>2000 * 2 ^ a + 1000\<close> milliseconds for a random value in \<open>[0, 1)\<close>, so each wait is
  longer than the one before.
\<close>

theorem retry_policy:
  "(\<forall>k e. key \<noteq> [] \<and> k \<le> MAX_RETRIES
        \<and> (\<forall>j < k. \<exists>e'. tryOnce (call j) = Inl e' \<and> \<not> isTerminal e')
        \<and> tryOnce (call k) = Inl e \<and> (isTerminal e \<or> k = MAX_RETRIES) \<longrightarrow>
      generateLrcFromAudio (Some key) call random
        = \<lparr>outcome = Inl e, calls = k + 1, waits = map (\<lambda>j. delay j (random j)) [0..<k]\<rparr>)
   \<and> (isTerminal err \<longleftrightarrow>
        err_status err \<in> {JsNum 400, JsNum 401, JsNum 403, JsNum 404}
        \<or> err_status err \<in> {JsUndefined, JsNull, JsBool False, JsNum 0, JsNaN, JsBigInt 0, JsStr []}
          \<and> err_response_status err \<in> {JsNum 400, JsNum 401, JsNum 403, JsNum 404})
   \<and> (\<forall>e. tryOnce (Throws e) = Inl e)
   \<and> (0 \<le> r \<and> r < 1 \<and> a \<le> MAX_RETRIES \<longrightarrow>
        2000 * 2 ^ a \<le> delay a r \<and> delay a r \<le> 2000 * 2 ^ a + 1000)
   \<and> (0 \<le> r \<and> r < 1 \<and> 0 \<le> r' \<and> r' < 1 \<and> a < MAX_RETRIES \<longrightarrow>
        delay a r < delay (a + 1) r')"
proof (intro conjI allI impI)
  fix k e
  assume h: "key \<noteq> [] \<and> k \<le> MAX_RETRIES
        \<and> (\<forall>j < k. \<exists>e'. tryOnce (call j) = Inl e' \<and> \<not> isTerminal e')
        \<and> tryOnce (call k) = Inl e \<and> (isTerminal e \<or> k = MAX_RETRIES)"
  then obtain le' where "attemptLoop call random 0 None []
      = attemptLoop call random k le' ([] @ map (\<lambda>j. delay j (random j)) [0..<k])"
    using attemptLoop_skip [of 0 k call random None "[]"] by auto
  also have "\<dots> = \<lparr>outcome = Inl e, calls = k + 1, waits = map (\<lambda>j. delay j (random j)) [0..<k]\<rparr>"
    using h by (subst attemptLoop.simps) auto
  finally show "generateLrcFromAudio (Some key) call random
        = \<lparr>outcome = Inl e, calls = k + 1, waits = map (\<lambda>j. delay j (random j)) [0..<k]\<rparr>"
    using h by (simp add: generateLrcFromAudio_def)
next
  show "isTerminal err \<longleftrightarrow>
        err_status err \<in> {JsNum 400, JsNum 401, JsNum 403, JsNum 404}
        \<or> err_status err \<in> {JsUndefined, JsNull, JsBool False, JsNum 0, JsNaN, JsBigInt 0, JsStr []}
          \<and> err_response_status err \<in> {JsNum 400, JsNum 401, JsNum 403, JsNum 404}"
    by (rule isTerminal_fields)
next
  fix e
  show "tryOnce (Throws e) = Inl e" by (simp add: tryOnce_def)
next
  assume "0 \<le> r \<and> r < 1 \<and> a \<le> MAX_RETRIES"
  then show "2000 * 2 ^ a \<le> delay a r" "delay a r \<le> 2000 * 2 ^ a + 1000"
    by (auto intro: delay_bounds)
next
  assume h: "0 \<le> r \<and> r < 1 \<and> 0 \<le> r' \<and> r' < 1 \<and> a < MAX_RETRIES"
  then have "delay a r \<le> 2000 * 2 ^ a + 1000"
    by (intro delay_bounds) auto
  also have "\<dots> < 2000 * 2 ^ (a + 1)"
  proof -
    have "(1::rat) \<le> 2 ^ a" by (rule one_le_power) simp
    then have "(2000::rat) * 2 ^ a + 1000 < 2000 * (2 * 2 ^ a)" by linarith
    then show ?thesis by simp
  qed
  also have "\<dots> \<le> delay (a + 1) r'"
    using h by (intro delay_bounds) auto
  finally show "delay a r < delay (a + 1) r'" .
qed

text \<open>
  Four runs with the random value 0.5. A 404 in \<open>error.status\<close> at the first attempt: one
  call. A rate limit, then a 404 carried by the response only: two calls and one wait. A
  rate limit at every attempt: four calls and three waits. A status that is the string
  \<open>UNAVAILABLE\<close>, with 404 in the response, at every attempt: retried like the rate limit.
\<close>

theorem retry_policy_witness:
  "generateLrcFromAudio (Some (str ''key'')) (\<lambda>k. Throws status404) (\<lambda>k. 1 / 2)
     = \<lparr>outcome = Inl status404, calls = 1, waits = []\<rparr>
   \<and> generateLrcFromAudio (Some (str ''key''))
       (\<lambda>k. if k = 0 then Throws status429 else Throws response404) (\<lambda>k. 1 / 2)
     = \<lparr>outcome = Inl response404, calls = 2, waits = [2500]\<rparr>
   \<and> generateLrcFromAudio (Some (str ''key'')) (\<lambda>k. Throws status429) (\<lambda>k. 1 / 2)
     = \<lparr>outcome = Inl status429, calls = 4, waits = [2500, 4500, 8500]\<rparr>
   \<and> generateLrcFromAudio (Some (str ''key'')) (\<lambda>k. Throws unavailable404) (\<lambda>k. 1 / 2)
     = \<lparr>outcome = Inl unavailable404, calls = 4, waits = [2500, 4500, 8500]\<rparr>
   \<and> delay 0 (1 / 2) < delay 1 (1 / 2)"
proof -
  let ?key = "str ''key''"
  let ?half = "\<lambda>k::nat. 1 / 2 :: rat"
  let ?c0 = "\<lambda>k::nat. Throws status404"
  let ?c1 = "\<lambda>k::nat. if k = 0 then Throws status429 else Throws response404"
  let ?c2 = "\<lambda>k::nat. Throws status429"
  let ?c3 = "\<lambda>k::nat. Throws unavailable404"
  note T0 = retry_policy [of ?key ?c0 ?half status404 "1 / 2" 0 "1 / 2"]
  note T1 = retry_policy [of ?key ?c1 ?half response404 "1 / 2" 0 "1 / 2"]
  note T2 = retry_policy [of ?key ?c2 ?half status429 "1 / 2" 0 "1 / 2"]
  note T3 = retry_policy [of ?key ?c3 ?half unavailable404 "1 / 2" 0 "1 / 2"]
  have t0: "isTerminal status404"
    using T0 [THEN conjunct2, THEN conjunct1] by (simp add: status404_def)
  have t1: "isTerminal response404"
    using T1 [THEN conjunct2, THEN conjunct1] by (simp add: response404_def)
  have t2: "\<not> isTerminal status429"
    using T2 [THEN conjunct2, THEN conjunct1] by (simp add: status429_def)
  have t3: "\<not> isTerminal unavailable404"
    using T3 [THEN conjunct2, THEN conjunct1] by (simp add: unavailable404_def str_def)
  have d: "delay 0 (1 / 2) = 2500" "delay 1 (1 / 2) = 4500" "delay 2 (1 / 2) = 8500"
    "delay (Suc 0) (1 / 2) = 4500"
    by code_simp+
  have k: "?key \<noteq> []" by (simp add: str_def)
  have u: "[0..<3] = [0, 1, 2::nat]" "[0..<1] = [0::nat]" by (simp_all add: upt_rec)
  have h0: "?key \<noteq> [] \<and> 0 \<le> MAX_RETRIES
        \<and> (\<forall>j < 0. \<exists>e'. tryOnce (?c0 j) = Inl e' \<and> \<not> isTerminal e')
        \<and> tryOnce (?c0 0) = Inl status404 \<and> (isTerminal status404 \<or> 0 = MAX_RETRIES)"
    using t0 k by (simp add: tryOnce_def)
  have "generateLrcFromAudio (Some ?key) ?c0 ?half
        = \<lparr>outcome = Inl status404, calls = 0 + 1, waits = map (\<lambda>j. delay j (?half j)) [0..<0]\<rparr>"
    using T0 [THEN conjunct1, THEN spec, THEN spec, THEN mp, OF h0] .
  then have a: "generateLrcFromAudio (Some ?key) ?c0 ?half
     = \<lparr>outcome = Inl status404, calls = 1, waits = []\<rparr>"
    by simp
  have h1: "?key \<noteq> [] \<and> 1 \<le> MAX_RETRIES
        \<and> (\<forall>j < 1. \<exists>e'. tryOnce (?c1 j) = Inl e' \<and> \<not> isTerminal e')
        \<and> tryOnce (?c1 1) = Inl response404 \<and> (isTerminal response404 \<or> 1 = MAX_RETRIES)"
    using t1 t2 k by (simp add: tryOnce_def MAX_RETRIES_def)
  have "generateLrcFromAudio (Some ?key) ?c1 ?half
        = \<lparr>outcome = Inl response404, calls = 1 + 1, waits = map (\<lambda>j. delay j (?half j)) [0..<1]\<rparr>"
    using T1 [THEN conjunct1, THEN spec, THEN spec, THEN mp, OF h1] .
  then have b: "generateLrcFromAudio (Some ?key) ?c1 ?half
     = \<lparr>outcome = Inl response404, calls = 2, waits = [2500]\<rparr>"
    by (simp add: d u)
  have h2: "?key \<noteq> [] \<and> 3 \<le> MAX_RETRIES
        \<and> (\<forall>j < 3. \<exists>e'. tryOnce (?c2 j) = Inl e' \<and> \<not> isTerminal e')
        \<and> tryOnce (?c2 3) = Inl status429 \<and> (isTerminal status429 \<or> 3 = MAX_RETRIES)"
    using t2 k by (simp add: tryOnce_def MAX_RETRIES_def)
  have "generateLrcFromAudio (Some ?key) ?c2 ?half
        = \<lparr>outcome = Inl status429, calls = 3 + 1, waits = map (\<lambda>j. delay j (?half j)) [0..<3]\<rparr>"
    using T2 [THEN conjunct1, THEN spec, THEN spec, THEN mp, OF h2] .
  then have c: "generateLrcFromAudio (Some ?key) ?c2 ?half
     = \<lparr>outcome = Inl status429, calls = 4, waits = [2500, 4500, 8500]\<rparr>"
    by (simp add: d u)
  have h3: "?key \<noteq> [] \<and> 3 \<le> MAX_RETRIES
        \<and> (\<forall>j < 3. \<exists>e'. tryOnce (?c3 j) = Inl e' \<and> \<not> isTerminal e')
        \<and> tryOnce (?c3 3) = Inl unavailable404 \<and> (isTerminal unavailable404 \<or> 3 = MAX_RETRIES)"
    using t3 k by (simp add: tryOnce_def MAX_RETRIES_def)
  have "generateLrcFromAudio (Some ?key) ?c3 ?half
        = \<lparr>outcome = Inl unavailable404, calls = 3 + 1, waits = map (\<lambda>j. delay j (?half j)) [0..<3]\<rparr>"
    using T3 [THEN conjunct1, THEN spec, THEN spec, THEN mp, OF h3] .
  then have e: "generateLrcFromAudio (Some ?key) ?c3 ?half
     = \<lparr>outcome = Inl unavailable404, calls = 4, waits = [2500, 4500, 8500]\<rparr>"
    by (simp add: d u)
  have f: "delay 0 (1 / 2) < delay 1 (1 / 2)"
    by (simp add: d)
  show ?thesis
    by (intro conjI) (rule a b c e f)+
qed
section \<open>Bulk LRC matching (C10)\<close>

lemma tagAt_iff:
  "tagAt l1 l2 s = Some cap \<longleftrightarrow>
     (\<exists>c1 c2 rest.
        s = [91, c1, c2, 58] @ cap @ 93 # rest
        \<and> (c1 = l1 \<or> c1 + 32 = l1) \<and> (c2 = l2 \<or> c2 + 32 = l2)
        \<and> (\<forall>c \<in> set cap. c \<noteq> 93 \<and> \<not> isLineTerminator c))"
  (is "?L \<longleftrightarrow> ?R")
proof
  let ?P = "\<lambda>c. c \<noteq> 93 \<and> \<not> isLineTerminator c"
  assume ?L
  then obtain c0 c1 c2 c3 rest where s: "s = c0 # c1 # c2 # c3 # rest"
    and hd: "c0 = 91" "sameLetter c1 l1" "sameLetter c2 l2" "c3 = 58"
    and body: "(case dropWhile ?P rest of
                  d # _ \<Rightarrow> if d = 93 then Some (takeWhile ?P rest) else None
                | [] \<Rightarrow> None) = Some cap"
    unfolding tagAt_def by (auto split: list.splits if_splits)
  from body obtain rest' where d: "dropWhile ?P rest = 93 # rest'" and cap: "cap = takeWhile ?P rest"
    by (auto split: list.splits if_splits)
  have "rest = takeWhile ?P rest @ dropWhile ?P rest" by simp
  then have r: "rest = cap @ 93 # rest'" using d cap by simp
  have a: "\<forall>c \<in> set cap. ?P c"
  proof
    fix c assume "c \<in> set cap"
    then have "c \<in> set (takeWhile ?P rest)" by (simp only: cap)
    then show "?P c" by (rule set_takeWhileD [THEN conjunct2])
  qed
  have l: "c1 = l1 \<or> c1 + 32 = l1" "c2 = l2 \<or> c2 + 32 = l2"
    using hd(2,3) by (simp_all only: sameLetter_def)
  have "s = [91, c1, c2, 58] @ cap @ 93 # rest'" using s hd(1,4) r by simp
  with l a show ?R by blast
next
  let ?P = "\<lambda>c. c \<noteq> 93 \<and> \<not> isLineTerminator c"
  assume ?R
  then obtain c1 c2 rest where s: "s = [91, c1, c2, 58] @ cap @ 93 # rest"
    and l: "c1 = l1 \<or> c1 + 32 = l1" "c2 = l2 \<or> c2 + 32 = l2"
    and c: "\<forall>c \<in> set cap. ?P c"
    by blast
  have t: "takeWhile ?P (cap @ 93 # rest) = cap"
    using c by (simp add: takeWhile_tail)
  have d: "dropWhile ?P (cap @ 93 # rest) = 93 # rest"
    using c by (simp add: dropWhile_append3)
  have sl: "sameLetter c1 l1" "sameLetter c2 l2"
    using l by (simp_all only: sameLetter_def)
  show ?L
    unfolding s by (simp add: tagAt_def sl t d)
qed

lemma findTag_iff:
  "findTag l1 l2 s = Some cap \<longleftrightarrow>
     (\<exists>k. tagAt l1 l2 (drop k s) = Some cap \<and> (\<forall>j < k. tagAt l1 l2 (drop j s) = None))"
proof (induction s)
  case Nil
  show ?case by (simp add: tagAt_def)
next
  case (Cons c cs)
  show ?case
  proof (cases "tagAt l1 l2 (c # cs)")
    case (Some cap')
    have "(\<exists>k. tagAt l1 l2 (drop k (c # cs)) = Some cap \<and> (\<forall>j < k. tagAt l1 l2 (drop j (c # cs)) = None))
        \<longleftrightarrow> cap' = cap"
    proof
      assume "\<exists>k. tagAt l1 l2 (drop k (c # cs)) = Some cap \<and> (\<forall>j < k. tagAt l1 l2 (drop j (c # cs)) = None)"
      then obtain k where k: "tagAt l1 l2 (drop k (c # cs)) = Some cap"
        "\<forall>j < k. tagAt l1 l2 (drop j (c # cs)) = None" by blast
      have "k = 0"
      proof (rule ccontr)
        assume "k \<noteq> 0"
        then have "tagAt l1 l2 (drop 0 (c # cs)) = None" using k(2) by blast
        with Some show False by simp
      qed
      with k(1) Some show "cap' = cap" by simp
    next
      assume "cap' = cap"
      with Some have "tagAt l1 l2 (drop 0 (c # cs)) = Some cap \<and> (\<forall>j < 0. tagAt l1 l2 (drop j (c # cs)) = None)"
        by simp
      then show "\<exists>k. tagAt l1 l2 (drop k (c # cs)) = Some cap \<and> (\<forall>j < k. tagAt l1 l2 (drop j (c # cs)) = None)"
        by blast
    qed
    then show ?thesis using Some by simp
  next
    case None
    have "(\<exists>k. tagAt l1 l2 (drop k (c # cs)) = Some cap \<and> (\<forall>j < k. tagAt l1 l2 (drop j (c # cs)) = None))
        \<longleftrightarrow> (\<exists>k. tagAt l1 l2 (drop k cs) = Some cap \<and> (\<forall>j < k. tagAt l1 l2 (drop j cs) = None))"
    proof
      assume "\<exists>k. tagAt l1 l2 (drop k (c # cs)) = Some cap \<and> (\<forall>j < k. tagAt l1 l2 (drop j (c # cs)) = None)"
      then obtain k where k: "tagAt l1 l2 (drop k (c # cs)) = Some cap"
        "\<forall>j < k. tagAt l1 l2 (drop j (c # cs)) = None" by blast
      from k(1) None obtain k' where k': "k = Suc k'" by (cases k) auto
      have "tagAt l1 l2 (drop k' cs) = Some cap" using k(1) k' by simp
      moreover have "\<forall>j < k'. tagAt l1 l2 (drop j cs) = None"
      proof (intro allI impI)
        fix j assume "j < k'"
        then have "Suc j < k" using k' by simp
        then have "tagAt l1 l2 (drop (Suc j) (c # cs)) = None" using k(2) by blast
        then show "tagAt l1 l2 (drop j cs) = None" by simp
      qed
      ultimately show "\<exists>k. tagAt l1 l2 (drop k cs) = Some cap \<and> (\<forall>j < k. tagAt l1 l2 (drop j cs) = None)"
        by blast
    next
      assume "\<exists>k. tagAt l1 l2 (drop k cs) = Some cap \<and> (\<forall>j < k. tagAt l1 l2 (drop j cs) = None)"
      then obtain k where k: "tagAt l1 l2 (drop k cs) = Some cap"
        "\<forall>j < k. tagAt l1 l2 (drop j cs) = None" by blast
      have "tagAt l1 l2 (drop (Suc k) (c # cs)) = Some cap" using k(1) by simp
      moreover have "\<forall>j < Suc k. tagAt l1 l2 (drop j (c # cs)) = None"
      proof (intro allI impI)
        fix j assume j: "j < Suc k"
        show "tagAt l1 l2 (drop j (c # cs)) = None"
        proof (cases j)
          case 0
          then show ?thesis using None by simp
        next
          case (Suc j')
          then have "j' < k" using j by simp
          then show ?thesis using k(2) Suc by simp
        qed
      qed
      ultimately show "\<exists>k. tagAt l1 l2 (drop k (c # cs)) = Some cap \<and> (\<forall>j < k. tagAt l1 l2 (drop j (c # cs)) = None)"
        by blast
    qed
    then show ?thesis using None Cons.IH by simp
  qed
qed

lemma matchesTrack_fields:
  "matchesTrack lc f t \<longleftrightarrow>
     trim (lc (stripExt (file_name (track_file t)))) = trim (lc (stripExt (lrc_name f)))
     \<or> (\<exists>cap. findTag 116 105 (lrc_content f) = Some cap \<and> 3 < length (lc (trim cap))
          \<and> (\<exists>a r. trim (lc (stripExt (file_name (track_file t)))) = a @ lc (trim cap) @ r))
     \<or> (\<exists>cap. findTag 97 114 (lrc_content f) = Some cap \<and> 3 < length (lc (trim cap))
          \<and> prefix (lc (trim cap)) (trim (lc (stripExt (file_name (track_file t))))))"
proof -
  have t: "titleMatch lc f t \<longleftrightarrow>
      (\<exists>cap. findTag 116 105 (lrc_content f) = Some cap \<and> 3 < length (lc (trim cap))
          \<and> (\<exists>a r. trim (lc (stripExt (file_name (track_file t)))) = a @ lc (trim cap) @ r))"
    by (cases "findTag 116 105 (lrc_content f)")
       (auto simp: titleMatch_def lrcTitle_def trackName_def includes_js_iff)
  have a: "artistMatch lc f t \<longleftrightarrow>
      (\<exists>cap. findTag 97 114 (lrc_content f) = Some cap \<and> 3 < length (lc (trim cap))
          \<and> prefix (lc (trim cap)) (trim (lc (stripExt (file_name (track_file t))))))"
    by (cases "findTag 97 114 (lrc_content f)")
       (auto simp: artistMatch_def lrcArtist_def trackName_def)
  show ?thesis
    unfolding matchesTrack_def exactMatch_def trackName_def lrcName_def t [symmetric] a [symmetric]
    by auto
qed

lemma onload_fold:
  assumes "length loaded \<le> n"
  shows "foldl (\<lambda>st f. onload lc tracks n f st)
           \<lparr>bulk_updates = [], processedCount = 0, bulk_shown = None\<rparr> loaded
       = \<lparr>bulk_updates =
             concat (map (\<lambda>f. case matchTrack lc tracks f of
                                 Some t \<Rightarrow> [(track_id t, lrc_content f)]
                               | None \<Rightarrow> []) loaded),
           processedCount = length loaded,
           bulk_shown =
             (if loaded \<noteq> [] \<and> length loaded = n
              then Some (let ups = concat (map (\<lambda>f. case matchTrack lc tracks f of
                                                      Some t \<Rightarrow> [(track_id t, lrc_content f)]
                                                    | None \<Rightarrow> []) loaded)
                         in if ups = [] then ([], NoMatchingTracks) else (ups, Matched (length ups)))
              else None)\<rparr>"
  using assms
proof (induction loaded rule: rev_induct)
  case Nil
  show ?case by simp
next
  case (snoc f fs)
  then have lt: "length fs < n" by simp
  then have le: "length fs \<le> n" by simp
  have nn: "\<not> (fs \<noteq> [] \<and> length fs = n)" using lt by simp
  show ?case
    unfolding foldl_append snoc.IH [OF le]
    using nn by (cases "matchTrack lc tracks f") (simp_all add: onload_def Let_def)
qed

lemma length_matched:
  "length (concat (map (\<lambda>f. case matchTrack lc tracks f of
                             Some t \<Rightarrow> [(track_id t, lrc_content f)]
                           | None \<Rightarrow> []) fs))
     = length (filter (\<lambda>f. matchTrack lc tracks f \<noteq> None) fs)"
  by (induction fs) (auto split: option.splits)

lemma handleBulkLrcUpload_result:
  "handleBulkLrcUpload lc tracks [] loaded = None"
  "files \<noteq> [] \<Longrightarrow> length loaded < length files
   \<Longrightarrow> handleBulkLrcUpload lc tracks files loaded = None"
  "files \<noteq> [] \<Longrightarrow> length loaded = length files
   \<Longrightarrow> handleBulkLrcUpload lc tracks files loaded
       = Some (let ups = concat (map (\<lambda>f. case matchTrack lc tracks f of
                                            Some t \<Rightarrow> [(track_id t, lrc_content f)]
                                          | None \<Rightarrow> []) loaded)
               in if ups = [] then ([], NoMatchingTracks) else (ups, Matched (length ups)))"
proof -
  show "handleBulkLrcUpload lc tracks [] loaded = None"
    by (simp add: handleBulkLrcUpload_def)
  show "handleBulkLrcUpload lc tracks files loaded = None"
    if "files \<noteq> []" "length loaded < length files"
  proof -
    have "length loaded \<le> length files" using that by simp
    then show ?thesis
      using that by (simp add: handleBulkLrcUpload_def onload_fold)
  qed
  show "handleBulkLrcUpload lc tracks files loaded
       = Some (let ups = concat (map (\<lambda>f. case matchTrack lc tracks f of
                                            Some t \<Rightarrow> [(track_id t, lrc_content f)]
                                          | None \<Rightarrow> []) loaded)
               in if ups = [] then ([], NoMatchingTracks) else (ups, Matched (length ups)))"
    if "files \<noteq> []" "length loaded = length files"
  proof -
    have "length loaded \<le> length files" "loaded \<noteq> []" using that by auto
    then show ?thesis
      using that by (simp add: handleBulkLrcUpload_def onload_fold)
  qed
qed

lemmas bulk_eval = exactMatch_def titleMatch_def artistMatch_def trackName_def lrcName_def
  lrcTitle_def lrcArtist_def tagAt_def sameLetter_def toLowerCaseAscii_def demoTrack_def
  demoUpload_def otherUpload_def str_def trim_def isWhiteSpace_def isLineTerminator_def
  extTail_def

lemma demo_first: "\<not> exactMatch toLowerCaseAscii demoUpload (demoTrack ''1'' ''my song a.mp3'')"
  "titleMatch toLowerCaseAscii demoUpload (demoTrack ''1'' ''my song a.mp3'')"
  by (simp_all add: bulk_eval)

lemma demo_second: "exactMatch toLowerCaseAscii demoUpload (demoTrack ''2'' ''song b.mp3'')"
  by (simp add: bulk_eval)

lemma demo_other:
  "\<not> matchesTrack toLowerCaseAscii otherUpload (demoTrack ''1'' ''my song a.mp3'')"
  "\<not> matchesTrack toLowerCaseAscii otherUpload (demoTrack ''2'' ''song b.mp3'')"
  by (simp_all add: matchesTrack_def bulk_eval)

lemma demo_matchTrack:
  "matchTrack toLowerCaseAscii [demoTrack ''1'' ''my song a.mp3'', demoTrack ''2'' ''song b.mp3'']
     demoUpload = Some (demoTrack ''1'' ''my song a.mp3'')"
  "matchTrack toLowerCaseAscii [demoTrack ''1'' ''my song a.mp3'', demoTrack ''2'' ''song b.mp3'']
     otherUpload = None"
  using demo_first demo_other by (simp_all add: matchTrack_def matchesTrack_def)

lemma demo_id: "track_id (demoTrack i n) = str i"
  by (simp add: demoTrack_def)

text \<open>
  Claim C10 says that the track is chosen by priority: equal stems first, then the title
  tag, then the artist tag. With the tracks \<open>my song a.mp3\<close> and \<open>song b.mp3\<close> and the upload
  \<open>song b.lrc\<close> holding \<open>[ti:Song]\<close>, the second track has the equal stem, yet the first
  track is chosen, through the title tag. It also says that a file without a track is
  reported in an unmatched count: the message is the same, \<open>Matched 1\<close>, whether the matched
  file comes alone or with a file that matches no track, and with that file alone the
  message carries no number.
\<close>

theorem bulk_match_priority_counterexample:
  "matchTrack toLowerCaseAscii [demoTrack ''1'' ''my song a.mp3'', demoTrack ''2'' ''song b.mp3'']
       demoUpload = Some (demoTrack ''1'' ''my song a.mp3'')
   \<and> specPriorityMatch toLowerCaseAscii
       [demoTrack ''1'' ''my song a.mp3'', demoTrack ''2'' ''song b.mp3''] demoUpload
       = Some (demoTrack ''2'' ''song b.mp3'')
   \<and> exactMatch toLowerCaseAscii demoUpload (demoTrack ''2'' ''song b.mp3'')
   \<and> \<not> exactMatch toLowerCaseAscii demoUpload (demoTrack ''1'' ''my song a.mp3'')
   \<and> handleBulkLrcUpload toLowerCaseAscii
       [demoTrack ''1'' ''my song a.mp3'', demoTrack ''2'' ''song b.mp3'']
       [demoUpload] [demoUpload]
       = Some ([(str ''1'', lrc_content demoUpload)], Matched 1)
   \<and> handleBulkLrcUpload toLowerCaseAscii
       [demoTrack ''1'' ''my song a.mp3'', demoTrack ''2'' ''song b.mp3'']
       [demoUpload, otherUpload] [otherUpload, demoUpload]
       = Some ([(str ''1'', lrc_content demoUpload)], Matched 1)
   \<and> handleBulkLrcUpload toLowerCaseAscii
       [demoTrack ''1'' ''my song a.mp3'', demoTrack ''2'' ''song b.mp3'']
       [otherUpload] [otherUpload]
       = Some ([], NoMatchingTracks)"
proof -
  have a: "matchTrack toLowerCaseAscii [demoTrack ''1'' ''my song a.mp3'', demoTrack ''2'' ''song b.mp3'']
       demoUpload = Some (demoTrack ''1'' ''my song a.mp3'')"
    by (rule demo_matchTrack)
  have b: "specPriorityMatch toLowerCaseAscii
       [demoTrack ''1'' ''my song a.mp3'', demoTrack ''2'' ''song b.mp3''] demoUpload
       = Some (demoTrack ''2'' ''song b.mp3'')"
    using demo_first demo_second by (simp add: specPriorityMatch_def)
  show ?thesis
    using a b demo_first(1) demo_second
    by (simp add: handleBulkLrcUpload_result demo_matchTrack demo_id)
qed

text \<open>
  Claim C10, amended. Each uploaded file is matched to at most one track: the first track
  of the list, in its order, for which any of three tests holds. The tests compare the
  stem of the track's file name, lower-cased and trimmed, with the file: the stems are
  equal; or the file has a \<open>[ti:]\<close> tag whose value, trimmed and lower-cased, is longer than
  3 and occurs in the track's stem; or it has an \<open>[ar:]\<close> tag whose value, likewise, is
  longer than 3 and begins the track's stem. The tag is the first place of the text where
  \<open>[\<close>, the two letters in either case and \<open>:\<close> are followed by a closing bracket on the same
  line, and its value is what stands before that bracket. The tests are alternatives for
  one track, not a priority order over the track list. A file that matches no track pushes
  no update. Nothing is shown for an empty file list, nor before every file is read; then,
  for the files in the order their reads completed, the updates of the matched files are
  passed on with the message \<open>Matched n\<close>, \<open>n\<close> the number of matched files, or, when no
  file matched, nothing is passed and the message says that no track matched.
\<close>

theorem bulk_match_first_track:
  "(matchesTrack lc f t \<longleftrightarrow>
      trim (lc (stripExt (file_name (track_file t)))) = trim (lc (stripExt (lrc_name f)))
      \<or> (\<exists>cap. findTag 116 105 (lrc_content f) = Some cap \<and> 3 < length (lc (trim cap))
           \<and> (\<exists>a r. trim (lc (stripExt (file_name (track_file t)))) = a @ lc (trim cap) @ r))
      \<or> (\<exists>cap. findTag 97 114 (lrc_content f) = Some cap \<and> 3 < length (lc (trim cap))
           \<and> prefix (lc (trim cap)) (trim (lc (stripExt (file_name (track_file t)))))))
   \<and> (\<forall>l1 l2 s cap. findTag l1 l2 s = Some cap \<longleftrightarrow>
        (\<exists>k. tagAt l1 l2 (drop k s) = Some cap \<and> (\<forall>j < k. tagAt l1 l2 (drop j s) = None)))
   \<and> (\<forall>l1 l2 s cap. tagAt l1 l2 s = Some cap \<longleftrightarrow>
        (\<exists>c1 c2 rest.
           s = [91, c1, c2, 58] @ cap @ 93 # rest
           \<and> (c1 = l1 \<or> c1 + 32 = l1) \<and> (c2 = l2 \<or> c2 + 32 = l2)
           \<and> (\<forall>c \<in> set cap. c \<noteq> 93 \<and> \<not> isLineTerminator c)))
   \<and> (matchTrack lc tracks f = None \<longleftrightarrow> (\<forall>t \<in> set tracks. \<not> matchesTrack lc f t))
   \<and> (\<forall>t. matchTrack lc tracks f = Some t \<longleftrightarrow>
        (\<exists>i < length tracks. tracks ! i = t \<and> matchesTrack lc f t
           \<and> (\<forall>j < i. \<not> matchesTrack lc f (tracks ! j))))
   \<and> handleBulkLrcUpload lc tracks [] loaded = None
   \<and> (files \<noteq> [] \<and> length loaded < length files \<longrightarrow>
        handleBulkLrcUpload lc tracks files loaded = None)
   \<and> (files \<noteq> [] \<and> length loaded = length files \<longrightarrow>
        handleBulkLrcUpload lc tracks files loaded
          = Some (let ups = concat (map (\<lambda>f. case matchTrack lc tracks f of
                                               Some t \<Rightarrow> [(track_id t, lrc_content f)]
                                             | None \<Rightarrow> []) loaded)
                  in if ups = [] then ([], NoMatchingTracks) else (ups, Matched (length ups))))
   \<and> length (concat (map (\<lambda>f. case matchTrack lc tracks f of
                                Some t \<Rightarrow> [(track_id t, lrc_content f)]
                              | None \<Rightarrow> []) loaded))
       = length (filter (\<lambda>f. matchTrack lc tracks f \<noteq> None) loaded)"
proof -
  have 1: "\<forall>l1 l2 s cap. findTag l1 l2 s = Some cap \<longleftrightarrow>
        (\<exists>k. tagAt l1 l2 (drop k s) = Some cap \<and> (\<forall>j < k. tagAt l1 l2 (drop j s) = None))"
    by (intro allI) (rule findTag_iff)
  have 2: "\<forall>l1 l2 s cap. tagAt l1 l2 s = Some cap \<longleftrightarrow>
        (\<exists>c1 c2 rest.
           s = [91, c1, c2, 58] @ cap @ 93 # rest
           \<and> (c1 = l1 \<or> c1 + 32 = l1) \<and> (c2 = l2 \<or> c2 + 32 = l2)
           \<and> (\<forall>c \<in> set cap. c \<noteq> 93 \<and> \<not> isLineTerminator c))"
    by (intro allI) (rule tagAt_iff)
  have 3: "matchTrack lc tracks f = None \<longleftrightarrow> (\<forall>t \<in> set tracks. \<not> matchesTrack lc f t)"
    by (auto simp: matchTrack_def find_None_iff)
  have 4: "\<forall>t. matchTrack lc tracks f = Some t \<longleftrightarrow>
        (\<exists>i < length tracks. tracks ! i = t \<and> matchesTrack lc f t
           \<and> (\<forall>j < i. \<not> matchesTrack lc f (tracks ! j)))"
    unfolding matchTrack_def find_Some_iff by blast
  have 5: "files \<noteq> [] \<and> length loaded < length files \<longrightarrow>
        handleBulkLrcUpload lc tracks files loaded = None"
    by (intro impI, elim conjE) (rule handleBulkLrcUpload_result(2))
  have 6: "files \<noteq> [] \<and> length loaded = length files \<longrightarrow>
        handleBulkLrcUpload lc tracks files loaded
          = Some (let ups = concat (map (\<lambda>f. case matchTrack lc tracks f of
                                               Some t \<Rightarrow> [(track_id t, lrc_content f)]
                                             | None \<Rightarrow> []) loaded)
                  in if ups = [] then ([], NoMatchingTracks) else (ups, Matched (length ups)))"
    by (intro impI, elim conjE) (rule handleBulkLrcUpload_result(3))
  show ?thesis
    by (intro conjI)
       (rule matchesTrack_fields 1 2 3 4 5 6 handleBulkLrcUpload_result(1) length_matched)+
qed

text \<open>
  The example of the specification, \<open>song.lrc\<close> and \<open>song.mp3\<close>, which match by their
  stems; the upload above, which takes the first track through its title tag; and two
  files read in the reverse of their order in the list, one of which matches no track.
\<close>

theorem bulk_match_first_track_witness:
  "matchesTrack toLowerCaseAscii \<lparr>lrc_name = str ''song.lrc'', lrc_content = []\<rparr>
       (demoTrack ''7'' ''song.mp3'')
   \<and> findTag 116 105 (lrc_content demoUpload) = Some (str ''Song'')
   \<and> matchTrack toLowerCaseAscii [demoTrack ''1'' ''my song a.mp3'', demoTrack ''2'' ''song b.mp3'']
       demoUpload = Some (demoTrack ''1'' ''my song a.mp3'')
   \<and> matchTrack toLowerCaseAscii [demoTrack ''1'' ''my song a.mp3'', demoTrack ''2'' ''song b.mp3'']
       otherUpload = None
   \<and> handleBulkLrcUpload toLowerCaseAscii
       [demoTrack ''1'' ''my song a.mp3'', demoTrack ''2'' ''song b.mp3'']
       [demoUpload, otherUpload] [otherUpload] = None
   \<and> handleBulkLrcUpload toLowerCaseAscii
       [demoTrack ''1'' ''my song a.mp3'', demoTrack ''2'' ''song b.mp3'']
       [demoUpload, otherUpload] [otherUpload, demoUpload]
       = Some ([(str ''1'', lrc_content demoUpload)], Matched 1)"
proof -
  let ?t1 = "demoTrack ''1'' ''my song a.mp3''"
  let ?t2 = "demoTrack ''2'' ''song b.mp3''"
  let ?ts = "[?t1, ?t2]"
  let ?song = "\<lparr>lrc_name = str ''song.lrc'', lrc_content = []\<rparr>"
  let ?lc = toLowerCaseAscii
  note S = bulk_match_first_track [of ?lc ?song "demoTrack ''7'' ''song.mp3''" ?ts
      "[otherUpload]" "[demoUpload, otherUpload]"]
  note D = bulk_match_first_track [of ?lc demoUpload ?t1 ?ts
      "[otherUpload, demoUpload]" "[demoUpload, otherUpload]"]
  note O = bulk_match_first_track [of ?lc otherUpload ?t2 ?ts
      "[otherUpload]" "[demoUpload, otherUpload]"]
  have "trim (?lc (stripExt (file_name (track_file (demoTrack ''7'' ''song.mp3'')))))
      = trim (?lc (stripExt (lrc_name ?song)))"
    by (simp add: bulk_eval)
  then have a: "matchesTrack ?lc ?song (demoTrack ''7'' ''song.mp3'')"
    by (intro S [THEN conjunct1, THEN iffD2] disjI1)
  have tag: "\<forall>l1 l2 s cap. tagAt l1 l2 s = Some cap \<longleftrightarrow>
        (\<exists>c1 c2 rest.
           s = [91, c1, c2, 58] @ cap @ 93 # rest
           \<and> (c1 = l1 \<or> c1 + 32 = l1) \<and> (c2 = l2 \<or> c2 + 32 = l2)
           \<and> (\<forall>c \<in> set cap. c \<noteq> 93 \<and> \<not> isLineTerminator c))"
    using D [THEN conjunct2, THEN conjunct2, THEN conjunct1] .
  have fnd: "\<forall>l1 l2 s cap. findTag l1 l2 s = Some cap \<longleftrightarrow>
        (\<exists>k. tagAt l1 l2 (drop k s) = Some cap \<and> (\<forall>j < k. tagAt l1 l2 (drop j s) = None))"
    using D [THEN conjunct2, THEN conjunct1] .
  have cont: "lrc_content demoUpload = [91, 116, 105, 58] @ str ''Song'' @ 93 # str ''[00:01.00] la''"
    by (simp add: demoUpload_def str_def)
  have clean: "\<forall>c \<in> set (str ''Song''). c \<noteq> 93 \<and> \<not> isLineTerminator c"
    by (simp add: str_def isLineTerminator_def)
  have ex: "\<exists>c1 c2 rest.
           lrc_content demoUpload = [91, c1, c2, 58] @ str ''Song'' @ 93 # rest
           \<and> (c1 = 116 \<or> c1 + 32 = 116) \<and> (c2 = 105 \<or> c2 + 32 = 105)
           \<and> (\<forall>c \<in> set (str ''Song''). c \<noteq> 93 \<and> \<not> isLineTerminator c)"
    by (rule exI [of _ 116], rule exI [of _ 105], rule exI [of _ "str ''[00:01.00] la''"])
       (intro conjI disjI1 refl cont clean)
  have t0: "tagAt 116 105 (lrc_content demoUpload) = Some (str ''Song'')"
    using tag [rule_format, THEN iffD2, OF ex] .
  have "\<exists>k. tagAt 116 105 (drop k (lrc_content demoUpload)) = Some (str ''Song'')
      \<and> (\<forall>j < k. tagAt 116 105 (drop j (lrc_content demoUpload)) = None)"
    by (rule exI [of _ 0]) (simp add: t0)
  then have b: "findTag 116 105 (lrc_content demoUpload) = Some (str ''Song'')"
    by (rule fnd [rule_format, THEN iffD2])
  have m1: "matchesTrack ?lc demoUpload ?t1"
    using demo_first(2) by (simp add: matchesTrack_def)
  have "\<exists>i < length ?ts. ?ts ! i = ?t1 \<and> matchesTrack ?lc demoUpload ?t1
      \<and> (\<forall>j < i. \<not> matchesTrack ?lc demoUpload (?ts ! j))"
    using m1 by (intro exI [of _ 0]) simp
  then have c: "matchTrack ?lc ?ts demoUpload = Some ?t1"
    by (rule D [THEN conjunct2, THEN conjunct2, THEN conjunct2, THEN conjunct2, THEN conjunct1,
                THEN spec, THEN iffD2])
  have "\<forall>t \<in> set ?ts. \<not> matchesTrack ?lc otherUpload t"
    using demo_other by simp
  then have d: "matchTrack ?lc ?ts otherUpload = None"
    by (rule O [THEN conjunct2, THEN conjunct2, THEN conjunct2, THEN conjunct1, THEN iffD2])
  have h1: "[demoUpload, otherUpload] \<noteq> [] \<and> length [otherUpload] < length [demoUpload, otherUpload]"
    by simp
  have e: "handleBulkLrcUpload ?lc ?ts [demoUpload, otherUpload] [otherUpload] = None"
    using O [THEN conjunct2, THEN conjunct2, THEN conjunct2, THEN conjunct2, THEN conjunct2,
             THEN conjunct2, THEN conjunct1, THEN mp, OF h1] .
  have h2: "[demoUpload, otherUpload] \<noteq> []
      \<and> length [otherUpload, demoUpload] = length [demoUpload, otherUpload]"
    by simp
  have "handleBulkLrcUpload ?lc ?ts [demoUpload, otherUpload] [otherUpload, demoUpload]
      = Some (let ups = concat (map (\<lambda>f. case matchTrack ?lc ?ts f of
                                           Some t \<Rightarrow> [(track_id t, lrc_content f)]
                                         | None \<Rightarrow> []) [otherUpload, demoUpload])
              in if ups = [] then ([], NoMatchingTracks) else (ups, Matched (length ups)))"
    using D [THEN conjunct2, THEN conjunct2, THEN conjunct2, THEN conjunct2, THEN conjunct2,
             THEN conjunct2, THEN conjunct2, THEN conjunct1, THEN mp, OF h2] .
  then have g: "handleBulkLrcUpload ?lc ?ts [demoUpload, otherUpload] [otherUpload, demoUpload]
      = Some ([(str ''1'', lrc_content demoUpload)], Matched 1)"
    by (simp add: c d demo_id)
  show ?thesis
    by (intro conjI) (rule a b c d e g)+
qed
section \<open>Properties of the LRC codec\<close>

lemma matchLine_Some_iff:
  "matchLine line = Some (g1, g2, g3) \<longleftrightarrow>
     (\<exists>m1 m2 s1 s2 f r.
        line = [91, m1, m2, 58, s1, s2, 46] @ f @ 93 # r
        \<and> isDigit m1 \<and> isDigit m2 \<and> isDigit s1 \<and> isDigit s2
        \<and> list_all isDigit f \<and> (length f = 2 \<or> length f = 3)
        \<and> g1 = [m1, m2] \<and> g2 = [s1, s2, 46] @ f
        \<and> g3 = takeWhile (\<lambda>c. \<not> isLineTerminator c) r)"
  (is "?L \<longleftrightarrow> ?R")
proof
  assume ?L
  then obtain c0 m1 m2 c3 s1 s2 c6 f1 f2 f3 rest' where
    line: "line = c0 # m1 # m2 # c3 # s1 # s2 # c6 # f1 # f2 # f3 # rest'"
    and hd: "c0 = 91" "isDigit m1" "isDigit m2" "c3 = 58" "isDigit s1" "isDigit s2" "c6 = 46"
      "isDigit f1" "isDigit f2"
    and body: "(if isDigit f3 \<and> (case rest' of c # _ \<Rightarrow> c = 93 | [] \<Rightarrow> False)
                then Some ([m1, m2], [s1, s2, 46, f1, f2, f3],
                           takeWhile (\<lambda>c. \<not> isLineTerminator c) (tl rest'))
                else if f3 = 93
                then Some ([m1, m2], [s1, s2, 46, f1, f2],
                           takeWhile (\<lambda>c. \<not> isLineTerminator c) rest')
                else None) = Some (g1, g2, g3)"
    unfolding matchLine_def by (auto split: list.splits if_splits)
  show ?R
  proof (cases "isDigit f3 \<and> (case rest' of c # _ \<Rightarrow> c = 93 | [] \<Rightarrow> False)")
    case True
    then obtain r where r: "rest' = 93 # r" by (auto split: list.splits)
    with True body have g: "g1 = [m1, m2]" "g2 = [s1, s2, 46] @ [f1, f2, f3]"
      "g3 = takeWhile (\<lambda>c. \<not> isLineTerminator c) r"
      by auto
    have "line = [91, m1, m2, 58, s1, s2, 46] @ [f1, f2, f3] @ 93 # r"
      using line hd r by simp
    moreover have "list_all isDigit [f1, f2, f3]" "length [f1, f2, f3] = 2 \<or> length [f1, f2, f3] = 3"
      using hd True by simp_all
    ultimately show ?thesis using hd g by blast
  next
    case False
    with body have f3: "f3 = 93" and g: "g1 = [m1, m2]" "g2 = [s1, s2, 46] @ [f1, f2]"
      "g3 = takeWhile (\<lambda>c. \<not> isLineTerminator c) rest'"
      by (auto split: if_splits)
    have "line = [91, m1, m2, 58, s1, s2, 46] @ [f1, f2] @ 93 # rest'"
      using line hd f3 by simp
    moreover have "list_all isDigit [f1, f2]" "length [f1, f2] = 2 \<or> length [f1, f2] = 3"
      using hd by simp_all
    ultimately show ?thesis using hd g by blast
  qed
next
  assume ?R
  then obtain m1 m2 s1 s2 f r where
    line: "line = [91, m1, m2, 58, s1, s2, 46] @ f @ 93 # r"
    and d: "isDigit m1" "isDigit m2" "isDigit s1" "isDigit s2" "list_all isDigit f"
    and len: "length f = 2 \<or> length f = 3"
    and g: "g1 = [m1, m2]" "g2 = [s1, s2, 46] @ f" "g3 = takeWhile (\<lambda>c. \<not> isLineTerminator c) r"
    by blast
  have n93: "\<not> isDigit 93" by (simp add: isDigit_def)
  from len show ?L
  proof
    assume "length f = 2"
    then obtain f1 f2 where f: "f = [f1, f2]"
      by (metis (no_types, opaque_lifting) length_0_conv length_Suc_conv numeral_2_eq_2)
    then show ?L
      using line d g n93 by (simp add: matchLine_def)
  next
    assume "length f = 3"
    then obtain f1 f2 f3 where f: "f = [f1, f2, f3]"
      by (metis (no_types, opaque_lifting) length_0_conv length_Suc_conv numeral_3_eq_3)
    then show ?L
      using line d g by (simp add: matchLine_def)
  qed
qed

lemma matchLine_not_digit: "\<not> isDigit c \<Longrightarrow> matchLine (91 # c # x) = None"
  by (simp add: matchLine_def split: list.splits)

lemma parseLine_header_None:
  "parseLine (i, str ''[ti:'' @ x) = None" "parseLine (i, str ''[ar:'' @ x) = None"
  by (simp_all add: parseLine_def str_def matchLine_not_digit isDigit_def)

lemma set_map_filter_enumerate:
  "l \<in> set (List.map_filter f (enumerate 0 xs)) \<longleftrightarrow> (\<exists>i < length xs. f (i, xs ! i) = Some l)"
proof -
  have "l \<in> set (List.map_filter f ps) \<longleftrightarrow> (\<exists>p \<in> set ps. f p = Some l)" for ps
    by (induction ps) (auto simp: List.map_filter_simps split: option.splits)
  then have "l \<in> set (List.map_filter f (enumerate 0 xs))
      \<longleftrightarrow> (\<exists>p \<in> set (enumerate 0 xs). f p = Some l)" .
  also have "\<dots> \<longleftrightarrow> (\<exists>i < length xs. f (i, xs ! i) = Some l)"
    by (auto simp: in_set_enumerate_eq)
  finally show ?thesis .
qed

lemma line_id_parseLine: "parseLine il = Some l \<Longrightarrow> line_id l = fst il"
  by (auto simp: parseLine_def split: option.splits)

lemma line_ids_map_filter:
  "map line_id (List.map_filter parseLine ps) = map fst (filter (\<lambda>p. parseLine p \<noteq> None) ps)"
  by (induction ps) (auto simp: List.map_filter_simps dest: line_id_parseLine split: option.splits)

lemma matchedLines_ids: "sorted (map line_id (matchedLines lrc))" "distinct (map line_id (matchedLines lrc))"
proof -
  let ?ps = "enumerate 0 (split_js [10] lrc)"
  have s: "sorted (map fst ?ps)" and d: "distinct (map fst ?ps)"
    by (simp_all add: enumerate_eq_zip)
  have m: "map line_id (matchedLines lrc) = map fst (filter (\<lambda>p. parseLine p \<noteq> None) ?ps)"
    by (simp add: matchedLines_def line_ids_map_filter)
  show "sorted (map line_id (matchedLines lrc))"
    unfolding m using s by (metis sorted_filter)
  show "distinct (map line_id (matchedLines lrc))"
    unfolding m using d by (metis distinct_map_filter)
qed

lemma minutes_exact:
  assumes "isDigit m1" "isDigit m2"
  shows "js_mul (parseInt [m1, m2]) 60 = of_int (60 * (10 * (uint m1 - 48) + (uint m2 - 48)))"
proof -
  have b: "48 \<le> uint m1" "uint m1 \<le> 57" "48 \<le> uint m2" "uint m2 \<le> 57"
    using assms by (simp_all add: isDigit_def word_le_def)
  then have "\<bar>60 * (10 * (uint m1 - 48) + (uint m2 - 48))\<bar> \<le> 2 ^ 53"
    by simp
  then have "fl (of_int (60 * (10 * (uint m1 - 48) + (uint m2 - 48))))
      = of_int (60 * (10 * (uint m1 - 48) + (uint m2 - 48)))"
    by (rule fl_of_int)
  then show ?thesis
    by (simp add: js_mul_def parseInt_def digitsValue_def mult.commute)
qed

lemma isDigit_not_dot: "isDigit c \<Longrightarrow> c \<noteq> 46"
  by (auto simp: isDigit_def)

lemma parseFloat_digits:
  assumes "isDigit s1" "isDigit s2"
  shows "parseFloat ([s1, s2, 46] @ f)
       = fl (of_int (digitsValue [s1, s2]) + of_int (digitsValue f) / 10 ^ length f)"
  using assms by (simp add: parseFloat_def isDigit_not_dot)

lemma parseLine_Some_iff:
  "parseLine (i, line) = Some l \<longleftrightarrow>
     (\<exists>m1 m2 s1 s2 f r.
        line = [91, m1, m2, 58, s1, s2, 46] @ f @ 93 # r
        \<and> isDigit m1 \<and> isDigit m2 \<and> isDigit s1 \<and> isDigit s2
        \<and> list_all isDigit f \<and> (length f = 2 \<or> length f = 3)
        \<and> l = \<lparr>line_id = i,
                 seconds = fl (of_int (60 * digitsValue [m1, m2])
                               + fl (of_int (digitsValue [s1, s2]) + of_int (digitsValue f) / 10 ^ length f)),
                 line_text = trim (takeWhile (\<lambda>c. \<not> isLineTerminator c) r)\<rparr>)"
  (is "?L \<longleftrightarrow> ?R")
proof
  assume ?L
  then obtain g1 g2 g3 where m: "matchLine line = Some (g1, g2, g3)"
    and l: "l = \<lparr>line_id = i, seconds = js_add (js_mul (parseInt g1) 60) (parseFloat g2),
                 line_text = trim g3\<rparr>"
    by (auto simp: parseLine_def split: option.splits)
  from m obtain m1 m2 s1 s2 f r where
    line: "line = [91, m1, m2, 58, s1, s2, 46] @ f @ 93 # r"
    and d: "isDigit m1" "isDigit m2" "isDigit s1" "isDigit s2" "list_all isDigit f"
      "length f = 2 \<or> length f = 3"
    and g: "g1 = [m1, m2]" "g2 = [s1, s2, 46] @ f" "g3 = takeWhile (\<lambda>c. \<not> isLineTerminator c) r"
    unfolding matchLine_Some_iff by blast
  have mm: "js_mul (parseInt [m1, m2]) 60 = of_int (60 * digitsValue [m1, m2])"
    using minutes_exact [OF d(1,2)] by (simp add: digitsValue_def)
  have "l = \<lparr>line_id = i,
             seconds = fl (of_int (60 * digitsValue [m1, m2])
                           + fl (of_int (digitsValue [s1, s2]) + of_int (digitsValue f) / 10 ^ length f)),
             line_text = trim (takeWhile (\<lambda>c. \<not> isLineTerminator c) r)\<rparr>"
    unfolding l g mm parseFloat_digits [OF d(3,4)] js_add_def ..
  with line d show ?R by blast
next
  assume ?R
  then obtain m1 m2 s1 s2 f r where
    line: "line = [91, m1, m2, 58, s1, s2, 46] @ f @ 93 # r"
    and d: "isDigit m1" "isDigit m2" "isDigit s1" "isDigit s2" "list_all isDigit f"
      "length f = 2 \<or> length f = 3"
    and l: "l = \<lparr>line_id = i,
             seconds = fl (of_int (60 * digitsValue [m1, m2])
                           + fl (of_int (digitsValue [s1, s2]) + of_int (digitsValue f) / 10 ^ length f)),
             line_text = trim (takeWhile (\<lambda>c. \<not> isLineTerminator c) r)\<rparr>"
    by blast
  have m: "matchLine line = Some ([m1, m2], [s1, s2, 46] @ f, takeWhile (\<lambda>c. \<not> isLineTerminator c) r)"
    unfolding matchLine_Some_iff using line d by blast
  have mm: "js_mul (parseInt [m1, m2]) 60 = of_int (60 * digitsValue [m1, m2])"
    using minutes_exact [OF d(1,2)] by (simp add: digitsValue_def)
  show ?L
    unfolding parseLine_def l using m mm parseFloat_digits [OF d(3,4), of f]
    by (simp add: js_add_def)
qed

lemma sort_key_stable_filter:
  "filter (\<lambda>l. f l = k) (sort_key f xs) = filter (\<lambda>l. f l = k) xs"
  by (rule sort_key_stable)


subsection \<open>What \<open>parseLrc\<close> returns\<close>

text \<open>
  Claim C2. For every input string, \<open>parseLrc\<close> returns the lines of the text that match the
  pattern, and only them: a line is read exactly when it is \<open>[\<close>, two digits, \<open>:\<close>, two
  digits, \<open>.\<close>, two or three digits and \<open>]\<close>, followed by anything. Its timestamp is the
  double sum of sixty times the minutes (an exact product) and the double nearest to the
  seconds written; its text is what follows the bracket up to a line terminator, trimmed. A
  line starting with \<open>[ti:\<close> or \<open>[ar:\<close> is never read. The result is the list of the lines
  read, in non-decreasing order of timestamp, and the lines of one timestamp keep the order
  they have in the text, which is the order of their indices.
\<close>

theorem parseLrc_contract:
  "sorted (map seconds (parseLrc lrc))
   \<and> (\<forall>k. filter (\<lambda>l. seconds l = k) (parseLrc lrc) = filter (\<lambda>l. seconds l = k) (matchedLines lrc))
   \<and> set (parseLrc lrc) = set (matchedLines lrc)
   \<and> length (parseLrc lrc) = length (matchedLines lrc)
   \<and> sorted (map line_id (matchedLines lrc)) \<and> distinct (map line_id (matchedLines lrc))
   \<and> (\<forall>l. l \<in> set (matchedLines lrc)
          \<longleftrightarrow> (\<exists>i < length (split_js [10] lrc). parseLine (i, split_js [10] lrc ! i) = Some l))
   \<and> (\<forall>i line l. parseLine (i, line) = Some l \<longleftrightarrow>
         (\<exists>m1 m2 s1 s2 f r.
            line = [91, m1, m2, 58, s1, s2, 46] @ f @ 93 # r
            \<and> isDigit m1 \<and> isDigit m2 \<and> isDigit s1 \<and> isDigit s2
            \<and> list_all isDigit f \<and> (length f = 2 \<or> length f = 3)
            \<and> l = \<lparr>line_id = i,
                     seconds = fl (of_int (60 * digitsValue [m1, m2])
                                   + fl (of_int (digitsValue [s1, s2])
                                         + of_int (digitsValue f) / 10 ^ length f)),
                     line_text = trim (takeWhile (\<lambda>c. \<not> isLineTerminator c) r)\<rparr>))
   \<and> (\<forall>i x. parseLine (i, str ''[ti:'' @ x) = None \<and> parseLine (i, str ''[ar:'' @ x) = None)"
proof -
  have 1: "sorted (map seconds (parseLrc lrc))"
    by (simp add: parseLrc_def)
  have 2: "\<forall>k. filter (\<lambda>l. seconds l = k) (parseLrc lrc) = filter (\<lambda>l. seconds l = k) (matchedLines lrc)"
    by (simp add: parseLrc_def sort_key_stable_filter)
  have 3: "set (parseLrc lrc) = set (matchedLines lrc)" "length (parseLrc lrc) = length (matchedLines lrc)"
    by (simp_all add: parseLrc_def)
  have 4: "\<forall>l. l \<in> set (matchedLines lrc)
          \<longleftrightarrow> (\<exists>i < length (split_js [10] lrc). parseLine (i, split_js [10] lrc ! i) = Some l)"
    by (simp add: matchedLines_def set_map_filter_enumerate)
  have 5: "\<forall>i line l. parseLine (i, line) = Some l \<longleftrightarrow>
         (\<exists>m1 m2 s1 s2 f r.
            line = [91, m1, m2, 58, s1, s2, 46] @ f @ 93 # r
            \<and> isDigit m1 \<and> isDigit m2 \<and> isDigit s1 \<and> isDigit s2
            \<and> list_all isDigit f \<and> (length f = 2 \<or> length f = 3)
            \<and> l = \<lparr>line_id = i,
                     seconds = fl (of_int (60 * digitsValue [m1, m2])
                                   + fl (of_int (digitsValue [s1, s2])
                                         + of_int (digitsValue f) / 10 ^ length f)),
                     line_text = trim (takeWhile (\<lambda>c. \<not> isLineTerminator c) r)\<rparr>)"
    by (intro allI) (rule parseLine_Some_iff)
  have 6: "\<forall>i x. parseLine (i, str ''[ti:'' @ x) = None \<and> parseLine (i, str ''[ar:'' @ x) = None"
    by (intro allI conjI) (rule parseLine_header_None)+
  show ?thesis
    by (intro conjI) (rule 1 2 3 4 5 6 matchedLines_ids)+
qed

text \<open>
  The example of the specification: the two lines come back in the order of their timestamps,
  5 and 12.5 seconds.
\<close>

theorem parseLrc_contract_witness:
  "parseLrc (str ''[00:12.50] line one'' @ 10 # str ''[00:05.00] line two'')
     = [\<lparr>line_id = 1, seconds = 5, line_text = str ''line two''\<rparr>,
        \<lparr>line_id = 0, seconds = 25 / 2, line_text = str ''line one''\<rparr>]
   \<and> sorted (map seconds (parseLrc (str ''[00:12.50] line one'' @ 10 # str ''[00:05.00] line two'')))
   \<and> parseLine (7, str ''[ti:Song]'') = None"
proof -
  have a: "parseLrc (str ''[00:12.50] line one'' @ 10 # str ''[00:05.00] line two'')
     = [\<lparr>line_id = 1, seconds = 5, line_text = str ''line two''\<rparr>,
        \<lparr>line_id = 0, seconds = 25 / 2, line_text = str ''line one''\<rparr>]"
    by code_simp
  have b: "str ''[ti:Song]'' = str ''[ti:'' @ str ''Song]''"
    by (simp add: str_def)
  note t = parseLrc_contract [of "str ''[00:12.50] line one'' @ 10 # str ''[00:05.00] line two''"]
  have c: "sorted (map seconds (parseLrc (str ''[00:12.50] line one'' @ 10 # str ''[00:05.00] line two'')))"
    using t by (rule conjunct1)
  have "\<forall>i x. parseLine (i, str ''[ti:'' @ x) = None \<and> parseLine (i, str ''[ar:'' @ x) = None"
    using t by (elim conjE)
  then have d: "parseLine (7, str ''[ti:Song]'') = None"
    unfolding b by (elim allE conjE)
  show ?thesis
    by (intro conjI) (rule a c d)+
qed

subsection \<open>Parsing what \<open>stringifyLrc\<close> wrote\<close>

text \<open>
  Claim C1. The line \<open>[99:99.99] x\<close> matches the pattern and is read as one line, at
  \<open>99 * 60 + 99.99\<close> seconds. \<open>stringifyLrc\<close> writes its minutes with \<open>padStart(2, '0')\<close>,
  which does not shorten the three digits of 100, so the line is written \<open>[100:39.99] x\<close>;
  the pattern of \<open>parseLrc\<close> asks for two digits of minutes, and reading the text again gives
  no line at all.
\<close>

theorem lrc_round_trip_loses_line:
  "map line_text (parseLrc (str ''[99:99.99] x'')) = [str ''x'']
   \<and> stringifyLrc (parseLrc (str ''[99:99.99] x'')) None = str ''[100:39.99] x''
   \<and> parseLrc (stringifyLrc (parseLrc (str ''[99:99.99] x'')) None) = []"
  by code_simp

section \<open>Properties of the WAV encoder\<close>


lemma trunc_of_int: "trunc (of_int n) = n"
  by (simp add: trunc_def)

lemma trunc_mono: "x \<le> y \<Longrightarrow> trunc x \<le> trunc y"
proof -
  assume xy: "x \<le> y"
  consider "0 \<le> x" | "x < 0" "0 \<le> y" | "y < 0" by linarith
  then show ?thesis
  proof cases
    case 1
    then show ?thesis using xy by (simp add: trunc_def floor_mono)
  next
    case 2
    have "0 \<le> \<lfloor>- x\<rfloor>" using 2 by simp
    moreover have "0 \<le> \<lfloor>y\<rfloor>" using 2 by simp
    ultimately have "- \<lfloor>- x\<rfloor> \<le> \<lfloor>y\<rfloor>" by linarith
    then show ?thesis using 2 by (simp add: trunc_def)
  next
    case 3
    have "\<lfloor>- y\<rfloor> \<le> \<lfloor>- x\<rfloor>" using xy by (simp add: floor_mono)
    then show ?thesis using 3 xy by (simp add: trunc_def)
  qed
qed

lemma expo_le:
  assumes "x \<noteq> 0" "\<bar>x\<bar> < 2 powi (e + 1)"
  shows "expo x \<le> e"
proof (rule ccontr)
  assume "\<not> expo x \<le> e"
  then have "e + 1 \<le> expo x" by simp
  then have "(2::rat) powi (e + 1) \<le> 2 powi (expo x)"
    by (simp add: power_int_increasing)
  with expo_bounds(1) [OF assms(1)] assms(2) show False by linarith
qed

lemma expo_ge:
  assumes "2 powi e \<le> \<bar>x\<bar>"
  shows "e \<le> expo x"
proof (rule ccontr)
  assume "\<not> e \<le> expo x"
  then have "expo x + 1 \<le> e" by simp
  then have "(2::rat) powi (expo x + 1) \<le> 2 powi e"
    by (simp add: power_int_increasing)
  moreover have "x \<noteq> 0"
  proof
    assume "x = 0"
    with assms have "(2::rat) powi e \<le> 0" by simp
    with two_powi_pos [of e] show False by linarith
  qed
  ultimately show False using expo_bounds(2) [of x] assms by linarith
qed

lemma fl_exact:
  assumes "x = of_int m * 2 powi e" "max (expo x) (- 1022) - 52 \<le> e"
  shows "fl x = x"
proof -
  define g where "g = max (expo x) (- 1022) - 52"
  have u: "ulp x = 2 powi g" by (simp add: ulp_def g_def)
  have ge: "0 \<le> e - g" using assms(2) by (simp add: g_def)
  have "(2::rat) powi e = 2 powi (e - g) * 2 powi g"
    by (simp flip: power_int_add)
  also have "(2::rat) powi (e - g) = of_int (2 ^ nat (e - g))"
    using ge by (simp add: power_int_def)
  finally have "x = of_int (m * 2 ^ nat (e - g)) * ulp x"
    using assms(1) u by simp
  then show ?thesis by (rule fl_grid)
qed

text \<open>A single-precision value is an integer multiple of a power of two.\<close>

lemma isFloat32_multiple:
  assumes "isFloat32 c"
  obtains m where "c = of_int m * 2 powi (max (expo c) (- 126) - 23)"
proof -
  let ?g = "max (expo c) (- 126) - 23"
  from assms have eq: "of_int \<lfloor>c / 2 powi ?g\<rfloor> = c / 2 powi ?g"
    by (simp add: isFloat32_def Let_def)
  have a: "c / 2 powi ?g * 2 powi ?g = c"
    using two_powi_pos [of ?g] by simp
  have "of_int \<lfloor>c / 2 powi ?g\<rfloor> * 2 powi ?g = c"
    unfolding eq by (rule a)
  then have "c = of_int \<lfloor>c / 2 powi ?g\<rfloor> * 2 powi ?g" by (rule sym)
  then show ?thesis by (rule that)
qed

lemma float32_scaled_exact:
  assumes c: "isFloat32 c" and k: "\<bar>k\<bar> \<le> 2 ^ 16"
  shows "fl (c * of_int k) = c * of_int k"
proof (cases "c * of_int k = 0")
  case True
  then show ?thesis by (simp only: fl_0)
next
  case False
  then have c0: "c \<noteq> 0" and k0: "k \<noteq> 0" by auto
  let ?g = "max (expo c) (- 126) - 23"
  from c obtain m where m: "c = of_int m * 2 powi ?g" by (rule isFloat32_multiple)
  have x: "c * of_int k = of_int (m * k) * 2 powi ?g"
    by (subst m) simp
  have "\<bar>c * of_int k\<bar> = \<bar>c\<bar> * \<bar>of_int k\<bar>" by (simp add: abs_mult)
  also have "\<dots> \<le> \<bar>c\<bar> * 2 ^ 16"
  proof (rule mult_left_mono)
    have "(of_int \<bar>k\<bar> :: rat) \<le> of_int (2 ^ 16)" using k by (simp only: of_int_le_iff)
    then show "\<bar>of_int k :: rat\<bar> \<le> 2 ^ 16" by simp
  qed simp
  also have "\<dots> < 2 powi (expo c + 1) * 2 ^ 16"
    using expo_bounds(2) [OF c0] by simp
  also have "\<dots> = 2 powi (expo c + 16 + 1)"
    by (simp add: power_int_add)
  finally have "expo (c * of_int k) \<le> expo c + 16"
    using False by (intro expo_le)
  then have "max (expo (c * of_int k)) (- 1022) - 52 \<le> ?g" by linarith
  with x show ?thesis by (rule fl_exact)
qed

lemma float32_sum_exact:
  assumes c: "isFloat32 c" and lo: "- 1 \<le> c" and hi: "c < - 1 / 2"
  shows "fl (1 / 2 + c) = 1 / 2 + c"
proof -
  let ?g = "max (expo c) (- 126) - 23"
  have "2 powi (- 1) \<le> \<bar>c\<bar>" using hi by (simp add: power_int_minus)
  then have "- 1 \<le> expo c" by (rule expo_ge)
  then have g: "- 24 \<le> ?g" by linarith
  have "c \<noteq> 0" "\<bar>c\<bar> < 2 powi (0 + 1)" using lo hi by simp_all
  then have "expo c \<le> 0" by (rule expo_le)
  then have g': "?g \<le> - 23" by linarith
  from c obtain m where m: "c = of_int m * 2 powi ?g" by (rule isFloat32_multiple)
  have "(1::rat) / 2 = 2 powi (- 1)" by (simp add: power_int_minus)
  also have "\<dots> = 2 powi (- 1 - ?g) * 2 powi ?g"
    by (simp flip: power_int_add)
  also have "(2::rat) powi (- 1 - ?g) = of_int (2 ^ nat (- 1 - ?g))"
    using g' by (simp add: power_int_def)
  finally have h: "(1::rat) / 2 = of_int (2 ^ nat (- 1 - ?g)) * 2 powi ?g" .
  have x: "1 / 2 + c = of_int (2 ^ nat (- 1 - ?g) + m) * 2 powi ?g"
    by (subst h, subst m) (simp add: algebra_simps)
  have x0: "1 / 2 + c \<noteq> 0" using hi by simp
  have "\<bar>1 / 2 + c\<bar> < 2 powi (- 1 + 1)" using lo hi by simp
  with x0 have "expo (1 / 2 + c) \<le> - 1" by (rule expo_le)
  then have "max (expo (1 / 2 + c)) (- 1022) - 52 \<le> ?g" using g by linarith
  with x show ?thesis by (rule fl_exact)
qed

lemma float32_threshold:
  assumes "isFloat32 c" "- 1 \<le> c"
  shows "js_add (1 / 2) c < 0 \<longleftrightarrow> c < - 1 / 2"
proof (cases "c < - 1 / 2")
  case True
  then show ?thesis
    using float32_sum_exact [OF assms True] by (simp add: js_add_def)
next
  case False
  then have "0 \<le> 1 / 2 + c" by simp
  then have "0 \<le> fl (1 / 2 + c)" by (rule fl_nonneg)
  with False show ?thesis by (simp add: js_add_def)
qed

lemma add_half_negative: "js_add (1 / 2) c < 0 \<Longrightarrow> c < - 1 / 2"
proof (rule ccontr)
  assume a: "js_add (1 / 2) c < 0" and "\<not> c < - 1 / 2"
  then have "0 \<le> 1 / 2 + c" by simp
  then have "0 \<le> fl (1 / 2 + c)" by (rule fl_nonneg)
  with a show False by (simp add: js_add_def)
qed

lemma fl_between:
  assumes "of_int a \<le> x" "x \<le> of_int b" "\<bar>a\<bar> \<le> 2 ^ 53" "\<bar>b\<bar> \<le> 2 ^ 53"
  shows "of_int a \<le> fl x" "fl x \<le> of_int b"
  using fl_mono [OF assms(1)] fl_mono [OF assms(2)] fl_of_int [OF assms(3)] fl_of_int [OF assms(4)]
  by simp_all

lemma trunc_between:
  assumes "of_int a \<le> x" "x \<le> of_int b"
  shows "a \<le> trunc x" "trunc x \<le> b"
  using trunc_mono [OF assms(1)] trunc_mono [OF assms(2)] by (simp_all add: trunc_of_int)

lemma toInt32_small: "- 32768 \<le> n \<Longrightarrow> n \<le> 32767 \<Longrightarrow> (n + 2 ^ 31) mod 2 ^ 32 - 2 ^ 31 = (n::int)"
  by simp

lemma scale_range:
  assumes "- 1 \<le> c" "c \<le> 1"
  shows "\<exists>y. scale (Fin c) = Fin y \<and> - 32768 \<le> y \<and> y \<le> 32767"
proof (cases "js_add (1 / 2) c < 0")
  case True
  then have "c < - 1 / 2" by (rule add_half_negative)
  then have "of_int (- 32768) \<le> c * 32768" "c * 32768 \<le> of_int 0"
    using assms by simp_all
  then have "of_int (- 32768) \<le> fl (c * 32768)" "fl (c * 32768) \<le> of_int 0"
    by (rule fl_between; simp)+
  then show ?thesis using True by (simp add: scale_def js_mul_def)
next
  case False
  have "of_int (- 32767) \<le> c * 32767" "c * 32767 \<le> of_int 32767"
    using assms by simp_all
  then have "of_int (- 32767) \<le> fl (c * 32767)" "fl (c * 32767) \<le> of_int 32767"
    by (rule fl_between; simp)+
  then show ?thesis using False by (simp add: scale_def js_mul_def)
qed

lemma toInt32_Fin:
  assumes "- 32768 \<le> y" "y \<le> 32767"
  shows "toInt32 (Fin y) = trunc y" "- 32768 \<le> trunc y" "trunc y \<le> 32767"
proof -
  have "of_int (- 32768) \<le> y" "y \<le> of_int 32767" using assms by simp_all
  then show b: "- 32768 \<le> trunc y" "trunc y \<le> 32767"
    by (rule trunc_between)+
  then show "toInt32 (Fin y) = trunc y"
    by (simp add: toInt32_def)
qed

lemma clamp_cases:
  "clamp NaN = NaN" "clamp PosInfinity = Fin 1" "clamp NegInfinity = Fin (- 1)"
  "clamp (Fin r) = Fin (max (- 1) (min 1 r))"
  by (simp_all add: clamp_def min1_def maxNeg1_def)

lemma encodeSample_range: "- 32768 \<le> encodeSample x \<and> encodeSample x \<le> 32767"
proof (cases "clamp x")
  case NaN
  then show ?thesis by (simp add: encodeSample_def scale_def toInt32_def)
next
  case PosInfinity
  then show ?thesis by (cases x) (simp_all add: clamp_cases)
next
  case NegInfinity
  then show ?thesis by (cases x) (simp_all add: clamp_cases)
next
  case (Fin c)
  then have "- 1 \<le> c" "c \<le> 1" by (cases x; auto simp: clamp_cases)+
  then obtain y where y: "scale (Fin c) = Fin y" "- 32768 \<le> y" "y \<le> 32767"
    using scale_range by blast
  show ?thesis
    using toInt32_Fin [OF y(2,3)] by (simp add: encodeSample_def Fin y(1))
qed

lemma isFloat32_one: "isFloat32 1" "isFloat32 (- 1)"
  by code_simp+

lemma encodeSample_float32:
  assumes "isFloat32 r"
  shows "encodeSample (Fin r)
       = (let c = max (- 1) (min 1 r)
          in trunc (if c < - 1 / 2 then c * 32768 else c * 32767))"
proof -
  define c where "c = max (- 1) (min 1 r)"
  have cr: "c = r \<or> c = 1 \<or> c = - 1" by (auto simp: c_def max_def min_def)
  then have f: "isFloat32 c" using assms isFloat32_one by auto
  have b: "- 1 \<le> c" "c \<le> 1" by (simp_all add: c_def)
  have t: "js_add (1 / 2) c < 0 \<longleftrightarrow> c < - 1 / 2"
    using f b(1) by (rule float32_threshold)
  have m1: "js_mul c 32768 = c * 32768"
    using float32_scaled_exact [OF f, of 32768] by (simp add: js_mul_def)
  have m2: "js_mul c 32767 = c * 32767"
    using float32_scaled_exact [OF f, of 32767] by (simp add: js_mul_def)
  have s: "scale (Fin c) = Fin (if c < - 1 / 2 then c * 32768 else c * 32767)"
    by (simp add: scale_def t m1 m2)
  obtain y where y: "scale (Fin c) = Fin y" "- 32768 \<le> y" "y \<le> 32767"
    using scale_range [OF b] by blast
  have "encodeSample (Fin r) = toInt32 (scale (Fin c))"
    by (simp add: encodeSample_def clamp_cases c_def)
  also have "\<dots> = trunc y" using toInt32_Fin(1) [OF y(2,3)] y(1) by simp
  also have "y = (if c < - 1 / 2 then c * 32768 else c * 32767)" using s y(1) by simp
  finally have "encodeSample (Fin r) = trunc (if c < - 1 / 2 then c * 32768 else c * 32767)" .
  then show ?thesis unfolding c_def Let_def .
qed

lemma int16Bytes_value:
  "uint (int16Bytes n ! 0) + 256 * uint (int16Bytes n ! 1) = n mod 65536"
proof -
  have a: "uint (word_of_int n :: byte) = n mod 256"
    by (simp add: uint_word_of_int_eq take_bit_eq_mod)
  have b: "uint (word_of_int (n div 256) :: byte) = n div 256 mod 256"
    by (simp add: uint_word_of_int_eq take_bit_eq_mod)
  have "n mod (256 * 256) = 256 * (n div 256 mod 256) + n mod 256"
    by (rule zmod_zmult2_eq) simp
  then have c: "n mod 256 + 256 * (n div 256 mod 256) = n mod 65536"
    by simp
  have "int16Bytes n ! 0 = word_of_int n" "int16Bytes n ! 1 = word_of_int (n div 256)"
    by (simp_all add: int16Bytes_def)
  then show ?thesis using a b c by (simp only:)
qed

lemma setBytes_fits:
  "off + length bs \<le> length buf
   \<Longrightarrow> setBytes off bs buf = Inr (take off buf @ bs @ drop (off + length bs) buf)"
  by (simp add: setBytes_def)

lemma written_take:
  "off + length bs \<le> length v
   \<Longrightarrow> take (off + length bs) (take off v @ bs @ drop (off + length bs) v) = take off v @ bs"
  by simp

lemma written_drop:
  "off + length bs \<le> length v
   \<Longrightarrow> drop (off + length bs + m) (take off v @ bs @ drop (off + length bs) v)
       = drop (off + length bs + m) v"
  by (simp add: add.commute)

lemma written_length:
  "off + length bs \<le> length v
   \<Longrightarrow> length (take off v @ bs @ drop (off + length bs) v) = length v"
  by simp

lemma length_int16Bytes: "length (int16Bytes n) = 2"
  by (simp add: int16Bytes_def)

lemma length_uint32Bytes: "length (uint32Bytes n) = 4"
  by (simp add: uint32Bytes_def)

lemma forChannels_writes:
  assumes "k = n - i" "i \<le> n" "44 + offset + 2 * (n - i) \<le> length v"
  shows "forChannels chans n pos i (v, offset)
       = Inr (take (44 + offset) v
              @ concat (map (\<lambda>j. int16Bytes (encodeSample (element (chans ! j) pos))) [i..<n])
              @ drop (44 + offset + 2 * (n - i)) v,
              offset + 2 * (n - i))"
  using assms
proof (induction k arbitrary: i v offset)
  case 0
  then have "i = n" by simp
  then show ?case by (simp add: forChannels.simps)
next
  case (Suc k)
  let ?bs = "int16Bytes (encodeSample (element (chans ! i) pos))"
  let ?v = "take (44 + offset) v @ ?bs @ drop (44 + offset + length ?bs) v"
  have i: "i < n" using Suc.prems by simp
  have len: "length ?bs = 2" by (rule length_int16Bytes)
  have fit: "44 + offset + length ?bs \<le> length v" using Suc.prems i by (simp add: len)
  have w: "setBytes (44 + offset) ?bs v = Inr ?v"
    using fit by (rule setBytes_fits)
  have lv: "length ?v = length v" using fit by (rule written_length)
  have k: "k = n - (i + 1)" "i + 1 \<le> n" using Suc.prems by simp_all
  have fit': "44 + (offset + 2) + 2 * (n - (i + 1)) \<le> length ?v"
    unfolding lv using Suc.prems i by simp
  have t: "take (44 + (offset + 2)) ?v = take (44 + offset) v @ ?bs"
    using written_take [OF fit] by (simp add: len add.assoc)
  have d: "drop (44 + (offset + 2) + 2 * (n - (i + 1))) ?v = drop (44 + offset + 2 * (n - i)) v"
  proof -
    have a: "44 + (offset + 2) + 2 * (n - (i + 1)) = 44 + offset + length ?bs + 2 * (n - (i + 1))"
      by (simp add: len)
    have b: "44 + offset + length ?bs + 2 * (n - (i + 1)) = 44 + offset + 2 * (n - i)"
      using i by (simp add: len)
    have "drop (44 + (offset + 2) + 2 * (n - (i + 1))) ?v
        = drop (44 + offset + length ?bs + 2 * (n - (i + 1))) ?v"
      by (simp only: a)
    also have "\<dots> = drop (44 + offset + length ?bs + 2 * (n - (i + 1))) v"
      using fit by (rule written_drop)
    also have "\<dots> = drop (44 + offset + 2 * (n - i)) v"
      by (simp only: b)
    finally show ?thesis .
  qed
  have u: "[i..<n] = i # [i + 1..<n]" using i by (simp add: upt_conv_Cons)
  have o: "offset + 2 + 2 * (n - (i + 1)) = offset + 2 * (n - i)" using i by simp
  have "forChannels chans n pos i (v, offset) = forChannels chans n pos (i + 1) (?v, offset + 2)"
    by (subst forChannels.simps) (simp add: i w len)
  also have "\<dots> = Inr (take (44 + (offset + 2)) ?v
              @ concat (map (\<lambda>j. int16Bytes (encodeSample (element (chans ! j) pos))) [i + 1..<n])
              @ drop (44 + (offset + 2) + 2 * (n - (i + 1))) ?v,
              offset + 2 + 2 * (n - (i + 1)))"
    using k fit' by (rule Suc.IH)
  finally show ?case
    unfolding t d u o by simp
qed

lemma frameBytes_nth:
  "frameBytes chans pos
     = concat (map (\<lambda>j. int16Bytes (encodeSample (element (chans ! j) pos))) [0..<length chans])"
proof -
  have "map (\<lambda>j. int16Bytes (encodeSample (element (chans ! j) pos))) [0..<length chans]
      = map (\<lambda>ch. int16Bytes (encodeSample (element ch pos))) (map ((!) chans) [0..<length chans])"
    by simp
  then show ?thesis by (simp only: frameBytes_def map_nth)
qed

lemma length_frameBytes: "length (frameBytes chans pos) = 2 * length chans"
  by (induction chans) (simp_all add: frameBytes_def length_int16Bytes)

lemma forChannels_frame:
  assumes "44 + offset + 2 * length chans \<le> length v"
  shows "forChannels chans (length chans) pos 0 (v, offset)
       = Inr (take (44 + offset) v @ frameBytes chans pos
              @ drop (44 + offset + length (frameBytes chans pos)) v,
              offset + 2 * length chans)"
  using forChannels_writes [of "length chans" "length chans" 0 offset v chans pos] assms
  by (simp add: frameBytes_nth [symmetric] length_frameBytes)

lemma whileLoop_writes:
  assumes "k = len - pos" "44 + offset + 2 * length chans * (len - pos) \<le> length v"
  shows "whileLoop chans (length chans) len pos (v, offset)
       = Inr (take (44 + offset) v @ concat (map (frameBytes chans) [pos..<len])
              @ drop (44 + offset + 2 * length chans * (len - pos)) v)"
  using assms
proof (induction k arbitrary: pos v offset)
  case 0
  then show ?case by (simp add: whileLoop.simps)
next
  case (Suc k)
  let ?n = "length chans"
  let ?bs = "frameBytes chans pos"
  let ?v = "take (44 + offset) v @ ?bs @ drop (44 + offset + length ?bs) v"
  have p: "pos < len" using Suc.prems by simp
  have len: "length ?bs = 2 * ?n" by (rule length_frameBytes)
  have e: "2 * ?n * (len - pos) = 2 * ?n + 2 * ?n * (len - (pos + 1))"
  proof -
    have "len - pos = Suc (len - (pos + 1))" using p by simp
    then show ?thesis by (simp only: mult_Suc_right)
  qed
  have fit: "44 + offset + length ?bs \<le> length v"
    using Suc.prems(2) unfolding e len by simp
  have f: "forChannels chans ?n pos 0 (v, offset) = Inr (?v, offset + 2 * ?n)"
    using fit by (intro forChannels_frame) (simp add: len)
  have lv: "length ?v = length v" using fit by (rule written_length)
  have k: "k = len - (pos + 1)" using Suc.prems by simp
  have fit': "44 + (offset + 2 * ?n) + 2 * ?n * (len - (pos + 1)) \<le> length ?v"
    unfolding lv using Suc.prems(2) unfolding e by simp
  have t: "take (44 + (offset + 2 * ?n)) ?v = take (44 + offset) v @ ?bs"
    using written_take [OF fit] by (simp add: len add.assoc)
  have d: "drop (44 + (offset + 2 * ?n) + 2 * ?n * (len - (pos + 1))) ?v
         = drop (44 + offset + 2 * ?n * (len - pos)) v"
  proof -
    have a: "44 + (offset + 2 * ?n) + 2 * ?n * (len - (pos + 1))
        = 44 + offset + length ?bs + 2 * ?n * (len - (pos + 1))"
      by (simp add: len)
    have b: "44 + offset + length ?bs + 2 * ?n * (len - (pos + 1))
        = 44 + offset + 2 * ?n * (len - pos)"
      unfolding e len by simp
    have "drop (44 + (offset + 2 * ?n) + 2 * ?n * (len - (pos + 1))) ?v
        = drop (44 + offset + length ?bs + 2 * ?n * (len - (pos + 1))) ?v"
      by (simp only: a)
    also have "\<dots> = drop (44 + offset + length ?bs + 2 * ?n * (len - (pos + 1))) v"
      using fit by (rule written_drop)
    also have "\<dots> = drop (44 + offset + 2 * ?n * (len - pos)) v"
      by (simp only: b)
    finally show ?thesis .
  qed
  have u: "[pos..<len] = pos # [pos + 1..<len]" using p by (simp add: upt_conv_Cons)
  have "whileLoop chans ?n len pos (v, offset) = whileLoop chans ?n len (pos + 1) (?v, offset + 2 * ?n)"
    by (subst whileLoop.simps) (simp add: p f)
  also have "\<dots> = Inr (take (44 + (offset + 2 * ?n)) ?v
              @ concat (map (frameBytes chans) [pos + 1..<len])
              @ drop (44 + (offset + 2 * ?n) + 2 * ?n * (len - (pos + 1))) ?v)"
    using k fit' by (rule Suc.IH)
  finally show ?case
    unfolding t d u by simp
qed

lemma setUint32_next:
  "setUint32 d \<lparr>w_view = pre @ replicate (4 + k) 0, w_pos = length pre\<rparr>
     = Inr \<lparr>w_view = (pre @ uint32Bytes d) @ replicate k 0, w_pos = length (pre @ uint32Bytes d)\<rparr>"
  by (simp add: setUint32_def setBytes_def ebind_def length_uint32Bytes flip: replicate_add)

lemma setUint16_next:
  "setUint16 d \<lparr>w_view = pre @ replicate (2 + k) 0, w_pos = length pre\<rparr>
     = Inr \<lparr>w_view = (pre @ int16Bytes d) @ replicate k 0, w_pos = length (pre @ int16Bytes d)\<rparr>"
  by (simp add: setUint16_def setBytes_def ebind_def length_int16Bytes flip: replicate_add)

lemma ebind_Inr: "ebind (Inr x) f = f x"
  by (simp add: ebind_def)

lemma writeHeader_result:
  "writeHeader abuffer n (44 + m) \<lparr>w_view = replicate (44 + m) 0, w_pos = 0\<rparr>
     = Inr \<lparr>w_view =
              (uint32Bytes 0x46464952 @ uint32Bytes (int (44 + m) - 8) @ uint32Bytes 0x45564157
               @ uint32Bytes 0x20746d66 @ uint32Bytes 16 @ int16Bytes 1 @ int16Bytes (int n)
               @ uint32Bytes (trunc (sampleRate abuffer))
               @ uint32Bytes (trunc (js_mul (js_mul (sampleRate abuffer) 2) (of_nat n)))
               @ int16Bytes (int n * 2) @ int16Bytes 16 @ uint32Bytes 0x61746164
               @ uint32Bytes (int (44 + m) - 44)) @ replicate m 0,
            w_pos = 44\<rparr>"
proof -
  have c: "44 + m = 4 + (4 + (4 + (4 + (4 + (2 + (2 + (4 + (4 + (2 + (2 + (4 + (4 + m))))))))))))"
    by simp
  have s: "\<lparr>w_view = replicate (44 + m) 0, w_pos = 0\<rparr>
         = \<lparr>w_view = [] @ replicate (4 + (4 + (4 + (4 + (4 + (2 + (2 + (4 + (4 + (2 + (2 + (4 + (4 + m))))))))))))) 0, w_pos = length ([] :: byte list)\<rparr>"
    by (simp only: c append_Nil list.size)
  show ?thesis
    unfolding writeHeader_def s
    by (simp only: setUint32_next setUint16_next ebind_Inr Writer.select_convs)
       (simp add: length_uint32Bytes length_int16Bytes)
qed

lemma length_wavHeader: "length (wavHeader abuffer len) = 44"
  by (simp add: wavHeader_def Let_def length_uint32Bytes length_int16Bytes)

lemma padding_length: "len * n * 2 - 2 * n * (len - 44) = 2 * n * min 44 (len::nat)"
proof (cases "44 \<le> len")
  case True
  then obtain d where "len = 44 + d" using le_Suc_ex by blast
  then show ?thesis by (simp add: algebra_simps)
next
  case False
  then show ?thesis by (simp add: min_def)
qed

text \<open>
  What \<open>bufferToWav\<close> returns as it is written. The loop counts with \<open>pos\<close>, the variable
  the header helpers have left at 44, and uses it as the index of the sample: the samples
  at the positions below 44 are never encoded, and the data end with as many zero bytes.
  The function never throws.
\<close>

lemma bufferToWav_layout:
  "bufferToWav abuffer len
     = Inr (wavHeader abuffer len
            @ concat (map (frameBytes (channelData abuffer)) [44..<len])
            @ replicate (2 * numberOfChannels abuffer * min 44 len) 0)"
proof -
  let ?chans = "channelData abuffer"
  let ?n = "length ?chans"
  let ?m = "len * ?n * 2"
  let ?v = "wavHeader abuffer len @ replicate ?m 0"
  have b: "len * ?n * 2 + 44 = 44 + ?m" by simp
  have h: "writeHeader abuffer ?n (44 + ?m) \<lparr>w_view = replicate (44 + ?m) 0, w_pos = 0\<rparr>
         = Inr \<lparr>w_view = ?v, w_pos = 44\<rparr>"
    unfolding writeHeader_result
    by (simp add: wavHeader_def Let_def numberOfChannels_def b)
  have fit: "44 + 0 + 2 * ?n * (len - 44) \<le> length ?v"
    by (simp add: length_wavHeader)
  have w: "whileLoop ?chans ?n len 44 (?v, 0)
         = Inr (take (44 + 0) ?v @ concat (map (frameBytes ?chans) [44..<len])
                @ drop (44 + 0 + 2 * ?n * (len - 44)) ?v)"
    using refl fit by (rule whileLoop_writes)
  have t: "take (44 + 0) ?v = wavHeader abuffer len"
    by (simp add: length_wavHeader)
  have d: "drop (44 + 0 + 2 * ?n * (len - 44)) ?v = replicate (2 * ?n * min 44 len) 0"
    by (simp add: length_wavHeader padding_length)
  show ?thesis
    unfolding bufferToWav_def Let_def numberOfChannels_def b h
    by (simp only: ebind_Inr Writer.select_convs w t d)
qed

lemma encodeSample_special:
  "encodeSample NaN = 0" "encodeSample PosInfinity = 32767" "encodeSample NegInfinity = - 32768"
  by code_simp+

subsection \<open>How a sample is scaled\<close>

text \<open>
  Claim C3, as stated, fails at the sample \<open>- 0.25\<close>: it is negative, but \<open>0.5 + sample\<close> is
  not, so the encoder scales it by 32767 and writes \<open>- 8191\<close>, the bytes \<open>01 E0\<close>, where the
  rule of the specification gives \<open>- 8192\<close>, the bytes \<open>00 E0\<close>. The second part runs the
  body of the loop once, on a channel holding that sample, over a buffer of 46 zero bytes.
\<close>

theorem wav_negative_sample_counterexample:
  "isFloat32 (- 1 / 4)
   \<and> encodeSample (Fin (- 1 / 4)) = - 8191
   \<and> specEncodeSample (- 1 / 4) = - 8192
   \<and> forChannels [[Fin (- 1 / 4)]] 1 0 0 (replicate 46 0, 0) = Inr (replicate 44 0 @ [0x01, 0xE0], 2)
   \<and> int16Bytes (specEncodeSample (- 1 / 4)) = [0x00, 0xE0]"
  by code_simp

text \<open>
  Claim C3, amended in its threshold only. A sample is clamped to \<open>[- 1, 1]\<close>, scaled by
  32768 when the clamped value is below \<open>- 0.5\<close> and by 32767 otherwise, and truncated
  towards zero; for a single-precision sample both products are exact. \<open>NaN\<close> gives 0. The
  result lies between \<open>- 32768\<close> and 32767. One turn of the inner loop writes it at byte
  \<open>44 + offset\<close> of the buffer, low byte first, as a number modulo \<open>2 ^ 16\<close>, and moves on by
  two bytes.
\<close>

theorem wav_sample_encoding:
  "(\<forall>r. isFloat32 r \<longrightarrow>
        encodeSample (Fin r)
          = (let c = max (- 1) (min 1 r)
             in trunc (if c < - 1 / 2 then c * 32768 else c * 32767)))
   \<and> encodeSample NaN = 0 \<and> encodeSample PosInfinity = 32767
   \<and> encodeSample NegInfinity = - 32768
   \<and> (\<forall>x. - 32768 \<le> encodeSample x \<and> encodeSample x \<le> 32767)
   \<and> (\<forall>n. uint (int16Bytes n ! 0) + 256 * uint (int16Bytes n ! 1) = n mod 65536)
   \<and> (\<forall>channels numOfChan pos i v offset.
        (i::nat) < numOfChan \<and> 44 + offset + 2 \<le> length v \<longrightarrow>
        forChannels channels numOfChan pos i (v, offset)
          = forChannels channels numOfChan pos (i + 1)
              (take (44 + offset) v @ int16Bytes (encodeSample (element (channels ! i) pos))
                 @ drop (44 + offset + 2) v,
               offset + 2))"
proof -
  have 1: "\<forall>r. isFloat32 r \<longrightarrow>
          encodeSample (Fin r)
            = (let c = max (- 1) (min 1 r)
               in trunc (if c < - 1 / 2 then c * 32768 else c * 32767))"
    by (intro allI impI) (rule encodeSample_float32)
  have 2: "\<forall>x. - 32768 \<le> encodeSample x \<and> encodeSample x \<le> 32767"
    by (intro allI) (rule encodeSample_range)
  have 3: "\<forall>n. uint (int16Bytes n ! 0) + 256 * uint (int16Bytes n ! 1) = n mod 65536"
    by (intro allI) (rule int16Bytes_value)
  have 4: "\<forall>channels numOfChan pos i v offset.
        (i::nat) < numOfChan \<and> 44 + offset + 2 \<le> length v \<longrightarrow>
        forChannels channels numOfChan pos i (v, offset)
          = forChannels channels numOfChan pos (i + 1)
              (take (44 + offset) v @ int16Bytes (encodeSample (element (channels ! i) pos))
                 @ drop (44 + offset + 2) v,
               offset + 2)"
  proof (intro allI impI)
    fix channels :: "sample list list" and numOfChan pos i :: nat and v :: "byte list" and offset :: nat
    assume h: "(i::nat) < numOfChan \<and> 44 + offset + 2 \<le> length v"
    let ?bs = "int16Bytes (encodeSample (element (channels ! i) pos))"
    have len: "length ?bs = 2" by (rule length_int16Bytes)
    have "44 + offset + length ?bs \<le> length v" using h by (simp add: len)
    then have "setBytes (44 + offset) ?bs v
        = Inr (take (44 + offset) v @ ?bs @ drop (44 + offset + length ?bs) v)"
      by (rule setBytes_fits)
    then show "forChannels channels numOfChan pos i (v, offset)
          = forChannels channels numOfChan pos (i + 1)
              (take (44 + offset) v @ ?bs @ drop (44 + offset + 2) v, offset + 2)"
      using h by (subst forChannels.simps) (simp add: len)
  qed
  show ?thesis
    by (intro conjI) (rule 1 2 3 4 encodeSample_special)+
qed

text \<open>
  The samples \<open>- 0.75\<close>, scaled by 32768, and \<open>- 0.5\<close>, scaled by 32767; and one turn of the
  loop on the first.
\<close>

theorem wav_sample_encoding_witness:
  "isFloat32 (- 3 / 4) \<and> encodeSample (Fin (- 3 / 4)) = - 24576
   \<and> isFloat32 (- 1 / 2) \<and> encodeSample (Fin (- 1 / 2)) = - 16383
   \<and> forChannels [[Fin (- 3 / 4)]] 1 0 0 (replicate 46 0, 0) = Inr (replicate 44 0 @ [0x00, 0xA0], 2)"
proof -
  note t = wav_sample_encoding
  have f: "isFloat32 (- 3 / 4)" "isFloat32 (- 1 / 2)"
    by code_simp+
  have r: "\<forall>r. isFloat32 r \<longrightarrow>
          encodeSample (Fin r)
            = (let c = max (- 1) (min 1 r)
               in trunc (if c < - 1 / 2 then c * 32768 else c * 32767))"
    using t by (rule conjunct1)
  have "encodeSample (Fin (- 3 / 4))
      = (let c = max (- 1) (min 1 (- 3 / 4)) in trunc (if c < - 1 / 2 then c * 32768 else c * 32767))"
    using r f(1) by (elim allE impE)
  also have "\<dots> = - 24576" by code_simp
  finally have a: "encodeSample (Fin (- 3 / 4)) = - 24576" .
  have "encodeSample (Fin (- 1 / 2))
      = (let c = max (- 1) (min 1 (- 1 / 2)) in trunc (if c < - 1 / 2 then c * 32768 else c * 32767))"
    using r f(2) by (elim allE impE)
  also have "\<dots> = - 16383" by code_simp
  finally have b: "encodeSample (Fin (- 1 / 2)) = - 16383" .
  have s: "\<forall>channels numOfChan pos i v offset.
        (i::nat) < numOfChan \<and> 44 + offset + 2 \<le> length v \<longrightarrow>
        forChannels channels numOfChan pos i (v, offset)
          = forChannels channels numOfChan pos (i + 1)
              (take (44 + offset) v @ int16Bytes (encodeSample (element (channels ! i) pos))
                 @ drop (44 + offset + 2) v,
               offset + 2)"
    using t by (elim conjE)
  have h: "(0::nat) < 1 \<and> 44 + 0 + 2 \<le> length (replicate 46 (0::byte))" by simp
  have "forChannels [[Fin (- 3 / 4)]] 1 0 0 (replicate 46 0, 0)
      = forChannels [[Fin (- 3 / 4)]] 1 0 (0 + 1)
          (take (44 + 0) (replicate 46 0)
             @ int16Bytes (encodeSample (element ([[Fin (- 3 / 4)]] ! 0) 0))
             @ drop (44 + 0 + 2) (replicate 46 0),
           0 + 2)"
    using s h by (elim allE impE)
  also have "\<dots> = Inr (replicate 44 0 @ [0x00, 0xA0], 2)"
    by code_simp
  finally have c: "forChannels [[Fin (- 3 / 4)]] 1 0 0 (replicate 46 0, 0)
      = Inr (replicate 44 0 @ [0x00, 0xA0], 2)" .
  show ?thesis
    by (intro conjI) (rule f a b c)+
qed
end
